theory Spec2Isabelle
  imports Main
begin

section \<open>JavaScript values\<close>

text \<open>
  \<^verbatim>\<open>JSON.parse\<close> returns an untyped value (\<^verbatim>\<open>any\<close>). A value of the
  program is a JSON value or \<^verbatim>\<open>undefined\<close>; the latter is \<open>None\<close>. Only the
  truthiness of a number is read by the code, so numbers are integers here. An object keeps
  its members in the order of the text; on a repeated name \<^verbatim>\<open>JSON.parse\<close> keeps
  the last one.
\<close>

datatype json =
    JNull
  | JBool bool
  | JNum int
  | JStr string
  | JArr "json list"
  | JObj "(string \<times> json) list"

type_synonym jsval = "json option"

text \<open>What \<^verbatim>\<open>if (v)\<close>, \<^verbatim>\<open>!v\<close> and \<^verbatim>\<open>v || w\<close> test.\<close>

fun truthy :: "jsval \<Rightarrow> bool" where
  "truthy None = False"
| "truthy (Some JNull) = False"
| "truthy (Some (JBool b)) = b"
| "truthy (Some (JNum n)) = (n \<noteq> 0)"
| "truthy (Some (JStr s)) = (s \<noteq> [])"
| "truthy (Some (JArr xs)) = True"
| "truthy (Some (JObj kvs)) = True"

text \<open>\<^verbatim>\<open>a || b\<close>: the left operand when it is truthy, the right one otherwise.\<close>

definition orElse :: "jsval \<Rightarrow> jsval \<Rightarrow> jsval" where
  "orElse a b = (if truthy a then a else b)"

text \<open>
  A thrown value is an error object with a name and a message;
  \<^verbatim>\<open>String(error)\<close> prints \<^verbatim>\<open>name: message\<close>.
\<close>

datatype jsError = JsError string string

definition newError :: "string \<Rightarrow> jsError" where
  "newError msg = JsError ''Error'' msg"

fun String_err :: "jsError \<Rightarrow> string" where
  "String_err (JsError name msg) =
     (if name = [] then msg else if msg = [] then name else name @ '': '' @ msg)"

text \<open>
  \<^verbatim>\<open>v.k\<close> on a value that is neither \<^verbatim>\<open>null\<close> nor
  \<^verbatim>\<open>undefined\<close>. None of the names the code reads (\<^verbatim>\<open>en\<close>,
  \<^verbatim>\<open>ind\<close>, \<^verbatim>\<open>title\<close>, \<^verbatim>\<open>keywords\<close>, \<^verbatim>\<open>category\<close>) is a
  property of a string, a number, a boolean or an array, so only an object has them.
\<close>

fun member :: "json \<Rightarrow> string \<Rightarrow> jsval" where
  "member (JObj kvs) k = map_of (rev kvs) k"
| "member _ k = None"

text \<open>\<^verbatim>\<open>v.k\<close>: a TypeError on \<^verbatim>\<open>null\<close> and \<^verbatim>\<open>undefined\<close>.\<close>

definition getProp :: "jsval \<Rightarrow> string \<Rightarrow> jsError + jsval" where
  "getProp v k =
     (case v of
        None \<Rightarrow> Inl (JsError ''TypeError'' ''Cannot read properties of undefined'')
      | Some JNull \<Rightarrow> Inl (JsError ''TypeError'' ''Cannot read properties of null'')
      | Some j \<Rightarrow> Inr (member j k))"

text \<open>\<^verbatim>\<open>v?.k\<close>: \<^verbatim>\<open>undefined\<close> on \<^verbatim>\<open>null\<close> and \<^verbatim>\<open>undefined\<close>.\<close>

definition optChain :: "jsval \<Rightarrow> string \<Rightarrow> jsval" where
  "optChain v k =
     (case v of None \<Rightarrow> None | Some JNull \<Rightarrow> None | Some j \<Rightarrow> member j k)"

section \<open>The generation call (services/geminiService.ts)\<close>

record Category =
  id_cat :: string
  en_cat :: string
  id_lang :: string

record LocalizedContent =
  title :: jsval
  keywords' :: jsval

record FileMetadata =
  en :: LocalizedContent
  ind :: LocalizedContent
  category :: jsval

record GenerationResult =
  metadata :: FileMetadata
  thumbnail :: "string option"

text \<open>
  How the awaits of \<^verbatim>\<open>generateMetadataForFile\<close> come out: building the request
  parts fails, or \<^verbatim>\<open>Promise.race([apiCall, timeout])\<close> settles with the rejection of
  the API call, with the 60 second timer, or with a response whose \<^verbatim>\<open>text\<close> may
  be missing.
\<close>

datatype callOutcome =
    PrepareRejected jsError
  | ApiRejected jsError
  | TimedOut
  | ApiResolved "string option"

definition timeoutError :: jsError where
  "timeoutError = newError ''Request timed out (60s limit)''"

text \<open>
  Lines 129 to 148. The list \<^verbatim>\<open>CATEGORIES\<close> of constants.ts is a
  parameter, and so is what \<^verbatim>\<open>JSON.parse(jsonText)\<close> gives: a value or the
  SyntaxError it throws. \<^verbatim>\<open>c.id === parsed.category\<close> holds only for a
  string equal to \<^verbatim>\<open>c.id\<close>.
\<close>

definition buildResult :: "Category list \<Rightarrow> json \<Rightarrow> string option \<Rightarrow> jsError + GenerationResult" where
  "buildResult CATEGORIES parsed generatedThumbnail =
     (case getProp (Some parsed) ''category'' of
        Inl e \<Rightarrow> Inl e
      | Inr parsedCategory \<Rightarrow>
          let validCategory =
                (if find (\<lambda>c. Some (JStr (id_cat c)) = parsedCategory) CATEGORIES \<noteq> None
                 then parsedCategory else Some (JStr ''8''))
          in Inr \<lparr> metadata = \<lparr>
                      en = \<lparr> title = orElse (optChain (member parsed ''en'') ''title'') (Some (JStr '''')),
                             keywords' = orElse (optChain (member parsed ''en'') ''keywords'') (Some (JStr '''')) \<rparr>,
                      ind = \<lparr> title = orElse (optChain (member parsed ''ind'') ''title'') (Some (JStr '''')),
                              keywords' = orElse (optChain (member parsed ''ind'') ''keywords'') (Some (JStr '''')) \<rparr>,
                      category = validCategory \<rparr>,
                    thumbnail = generatedThumbnail \<rparr>)"

definition generateMetadataForFile ::
  "Category list \<Rightarrow> string option \<Rightarrow> callOutcome \<Rightarrow> jsError + json
     \<Rightarrow> jsError + GenerationResult" where
  "generateMetadataForFile CATEGORIES generatedThumbnail outcome JSON_parse_jsonText =
     (case outcome of
        PrepareRejected e \<Rightarrow> Inl e
      | ApiRejected e \<Rightarrow> Inl e
      | TimedOut \<Rightarrow> Inl timeoutError
      | ApiResolved jsonText \<Rightarrow>
          (case jsonText of
             None \<Rightarrow> Inl (newError ''Empty response from AI'')
           | Some t \<Rightarrow>
               if t = [] then Inl (newError ''Empty response from AI'')
               else (case JSON_parse_jsonText of
                       Inl e \<Rightarrow> Inl e
                     | Inr parsed \<Rightarrow> buildResult CATEGORIES parsed generatedThumbnail)))"

text \<open>Whether a value is a string, as \<^verbatim>\<open>typeof v === 'string'\<close> tells.\<close>

fun isString :: "jsval \<Rightarrow> bool" where
  "isString (Some (JStr s)) = True"
| "isString _ = False"


section \<open>Strings\<close>

text \<open>
  \<^verbatim>\<open>toLowerCase\<close> on the ASCII letters and \<^verbatim>\<open>includes\<close>. The six words the
  worker looks for are ASCII, and no character outside ASCII lowers to one of their letters
  in place, so the bytes of the message decide. An upper-case letter and its lower-case letter differ
  in bit 5.
\<close>

fun toLowerChar :: "char \<Rightarrow> char" where
  "toLowerChar (Char b0 b1 b2 b3 b4 b5 b6 b7) =
     (let n = (of_char (Char b0 b1 b2 b3 b4 b5 b6 b7) :: nat)
      in if 65 \<le> n \<and> n \<le> 90 then Char b0 b1 b2 b3 b4 True b6 b7
         else Char b0 b1 b2 b3 b4 b5 b6 b7)"

definition toLowerCase :: "string \<Rightarrow> string" where
  "toLowerCase s = map toLowerChar s"

fun startsWith :: "string \<Rightarrow> string \<Rightarrow> bool" where
  "startsWith s [] = True"
| "startsWith [] (p # ps) = False"
| "startsWith (c # cs) (p # ps) = (c = p \<and> startsWith cs ps)"

fun includes_str :: "string \<Rightarrow> string \<Rightarrow> bool" where
  "includes_str [] p = (p = [])"
| "includes_str (c # cs) p = (startsWith (c # cs) p \<or> includes_str cs p)"

section \<open>The application state (the App component of src/unnamed/part_002)\<close>

text \<open>
  The repository holds two generations of the component; this is the one with cooldowns and
  a rotation pointer, and the line numbers below are those of src/unnamed/part_002.
\<close>

datatype ProcessingStatus = Pending | Processing | Completed | Failed

datatype FileType = Image | Video | Vector

record FileItem =
  id_file :: string
  name_file :: string
  type_file :: FileType
  status :: ProcessingStatus
  metadata_file :: FileMetadata
  thumbnail_file :: "string option"
  error :: "string option"

text \<open>
  \<^verbatim>\<open>startProcessing\<close>, \<^verbatim>\<open>spawnWorker\<close> and \<^verbatim>\<open>checkCompletion\<close> are
  closures of one render of the component: the \<^verbatim>\<open>apiKeys\<close> and
  \<^verbatim>\<open>files\<close> they read are the values of that render, also in the callbacks they
  leave behind, whereas the refs are shared.
\<close>

record closure =
  apiKeys_c :: "string list"
  files_c :: "FileItem list"

text \<open>A worker suspended at \<^verbatim>\<open>await generateMetadataForFile(...)\<close>.\<close>

record worker =
  scope :: closure
  workerId :: nat
  fileId :: string
  selectedKey :: string

text \<open>The callbacks handed to \<^verbatim>\<open>setTimeout\<close>.\<close>

datatype task =
    SpawnTask closure nat
  | CompletionTask

record AppState =
  apiKeys :: "string list"
  files :: "FileItem list"
  isProcessing :: bool
  processingRef :: bool
  activeWorkersRef :: int
  queueRef :: "string list"
  activeKeysRef :: "string set"
  cooldownKeysRef :: "string \<rightharpoonup> int"
  nextKeyIdxRef :: nat
  awaiting :: "worker list"
  timers :: "(nat \<times> task) list"

definition initialState :: AppState where
  "initialState =
     \<lparr> apiKeys = [], files = [], isProcessing = False, processingRef = False,
       activeWorkersRef = 0, queueRef = [], activeKeysRef = {}, cooldownKeysRef = Map.empty,
       nextKeyIdxRef = 0, awaiting = [], timers = [] \<rparr>"

text \<open>
  The log (\<^verbatim>\<open>addLog\<close>, \<^verbatim>\<open>console.error\<close>, \<^verbatim>\<open>alert\<close>) is written and
  never read by the scheduler; it is left out.
\<close>

subsection \<open>Key selection (lines 444 to 470)\<close>

text \<open>Lines 449 to 453: an entry is deleted when \<^verbatim>\<open>now > expiry\<close>.\<close>

definition cleanCooldowns :: "int \<Rightarrow> (string \<rightharpoonup> int) \<Rightarrow> (string \<rightharpoonup> int)" where
  "cleanCooldowns now m =
     (\<lambda>key. case m key of None \<Rightarrow> None
                         | Some expiry \<Rightarrow> if now > expiry then None else Some expiry)"

text \<open>
  Lines 456 to 470, the loop from iteration \<open>i\<close> on: the selected key and the new
  rotation pointer, or \<open>None\<close> when the loop ends without a \<^verbatim>\<open>break\<close>.
\<close>

function keyLoop ::
  "string list \<Rightarrow> string set \<Rightarrow> (string \<rightharpoonup> int) \<Rightarrow> nat \<Rightarrow> nat \<Rightarrow> (string \<times> nat) option" where
  "keyLoop keys active cooling nextKeyIdx i =
     (let totalKeys = length keys in
      if i < totalKeys then
        (let idx = (nextKeyIdx + i) mod totalKeys;
             keyCandidate = keys ! idx;
             isBusy = (keyCandidate \<in> active);
             isCooling = (cooling keyCandidate \<noteq> None)
         in if \<not> isBusy \<and> \<not> isCooling then Some (keyCandidate, (idx + 1) mod totalKeys)
            else keyLoop keys active cooling nextKeyIdx (i + 1))
      else None)"
  by pat_completeness auto
termination
  by (relation "measure (\<lambda>(keys, active, cooling, nextKeyIdx, i). length keys - i)") auto

declare keyLoop.simps [simp del]

definition selectKey :: "string list \<Rightarrow> int \<Rightarrow> AppState \<Rightarrow> string option \<times> AppState" where
  "selectKey keys now s =
     (let s1 = s\<lparr> cooldownKeysRef := cleanCooldowns now (cooldownKeysRef s) \<rparr>
      in case keyLoop keys (activeKeysRef s1) (cooldownKeysRef s1) (nextKeyIdxRef s1) 0 of
           None \<Rightarrow> (None, s1)
         | Some (key, idx') \<Rightarrow> (Some key, s1\<lparr> nextKeyIdxRef := idx' \<rparr>))"

subsection \<open>The worker (lines 427 to 561)\<close>

definition checkCompletion :: "AppState \<Rightarrow> AppState" where
  "checkCompletion s =
     (if activeWorkersRef s = 0 then s\<lparr> timers := timers s @ [(1000, CompletionTask)] \<rparr>
      else s)"

text \<open>The callback of lines 553 to 559.\<close>

definition completionCallback :: "AppState \<Rightarrow> AppState" where
  "completionCallback s =
     (if length (queueRef s) = 0 \<and> activeWorkersRef s = 0
      then s\<lparr> isProcessing := False, processingRef := False \<rparr>
      else s)"

definition isKeyError :: "string \<Rightarrow> bool" where
  "isKeyError errorMsg =
     (includes_str errorMsg ''429'' \<or> includes_str errorMsg ''403'' \<or> includes_str errorMsg ''quota'' \<or>
      includes_str errorMsg ''timeout'' \<or> includes_str errorMsg ''fetch failed'' \<or>
      includes_str errorMsg ''overloaded'')"

text \<open>Lines 497 to 507, after the call has resolved.\<close>

definition successBlock :: "worker \<Rightarrow> GenerationResult \<Rightarrow> AppState \<Rightarrow> AppState" where
  "successBlock w r s =
     s\<lparr> files := map (\<lambda>f. if id_file f = fileId w
                            then f\<lparr> status := Completed, metadata_file := metadata r,
                                    thumbnail_file := thumbnail r \<rparr>
                            else f) (files s),
         activeKeysRef := activeKeysRef s - {selectedKey w} \<rparr>"

text \<open>Lines 509 to 542, the \<^verbatim>\<open>catch\<close> block.\<close>

definition catchBlock :: "string \<Rightarrow> string \<Rightarrow> jsError \<Rightarrow> int \<Rightarrow> AppState \<Rightarrow> AppState" where
  "catchBlock fileId' selectedKey' err now s =
     (let s1 = s\<lparr> activeKeysRef := activeKeysRef s - {selectedKey'} \<rparr>;
          errorMsg = toLowerCase (String_err err)
      in if isKeyError errorMsg
         then s1\<lparr> queueRef := queueRef s1 @ [fileId'],
                  cooldownKeysRef := (cooldownKeysRef s1)(selectedKey' \<mapsto> now + 30000),
                  files := map (\<lambda>f. if id_file f = fileId' then f\<lparr> status := Pending \<rparr> else f)
                             (files s1) \<rparr>
         else s1\<lparr> files := map (\<lambda>f. if id_file f = fileId'
                                     then f\<lparr> status := Failed, error := Some (String_err err) \<rparr>
                                     else f) (files s1) \<rparr>)"


text \<open>Lines 473 to 481: no key was found (\<^verbatim>\<open>!selectedKey\<close>).\<close>

definition backOff :: "closure \<Rightarrow> nat \<Rightarrow> string \<Rightarrow> AppState \<Rightarrow> AppState" where
  "backOff c workerId' fileId' s =
     s\<lparr> queueRef := fileId' # queueRef s,
        activeWorkersRef := activeWorkersRef s - 1,
        timers := timers s @ [(1000, SpawnTask c workerId')] \<rparr>"

text \<open>Lines 484 and 485.\<close>

definition markProcessing :: "string \<Rightarrow> string \<Rightarrow> AppState \<Rightarrow> AppState" where
  "markProcessing fileId' key s =
     s\<lparr> activeKeysRef := insert key (activeKeysRef s),
        files := map (\<lambda>f. if id_file f = fileId' then f\<lparr> status := Processing \<rparr> else f)
                   (files s) \<rparr>"

text \<open>
  \<^verbatim>\<open>spawnWorker\<close> from its entry to its first suspension or return. \<^verbatim>\<open>shift\<close>
  removes the first id also when the id is the empty string, which \<^verbatim>\<open>!fileId\<close>
  takes for an empty queue. When the file is not among the files of the closure, the
  \<^verbatim>\<open>throw\<close> of line 493 reaches the \<^verbatim>\<open>catch\<close> block before any
  suspension, and the worker goes on to line 544 and calls itself. One run of synchronous
  code reads one value of the clock.
\<close>

function spawnWorker :: "closure \<Rightarrow> nat \<Rightarrow> int \<Rightarrow> AppState \<Rightarrow> AppState" where
  "spawnWorker c workerId' now s =
     (if \<not> processingRef s then s
      else case queueRef s of
             [] \<Rightarrow> checkCompletion s
           | fileId' # rest \<Rightarrow>
               if fileId' = [] then checkCompletion (s\<lparr> queueRef := rest \<rparr>)
               else
                 (case selectKey (apiKeys_c c) now
                         (s\<lparr> queueRef := rest, activeWorkersRef := activeWorkersRef s + 1 \<rparr>) of
                    (None, s1) \<Rightarrow> backOff c workerId' fileId' s1
                  | (Some key, s1) \<Rightarrow>
                      if key = [] then backOff c workerId' fileId' s1
                      else
                        (let s2 = markProcessing fileId' key s1
                         in case find (\<lambda>f. id_file f = fileId') (files_c c) of
                              None \<Rightarrow>
                                (let s3 = catchBlock fileId' key
                                            (newError ''File not found in state'') now s2
                                 in spawnWorker c workerId' now
                                      (s3\<lparr> activeWorkersRef := activeWorkersRef s3 - 1 \<rparr>))
                            | Some fileItem \<Rightarrow>
                                s2\<lparr> awaiting := awaiting s2 @
                                      [\<lparr> scope = c, workerId = workerId', fileId = fileId',
                                         selectedKey = key \<rparr>] \<rparr>)))"
  by pat_completeness auto
termination
  by (relation "measure (\<lambda>(c, w, now, s). length (queueRef s))")
     (simp_all add: selectKey_def catchBlock_def markProcessing_def isKeyError_def
        toLowerCase_def newError_def Let_def split: option.splits prod.splits)

declare spawnWorker.simps [simp del]

text \<open>
  Names for the states \<^verbatim>\<open>spawnWorker\<close> passes through: after \<^verbatim>\<open>shift\<close> and
  line 438, at the suspension of line 495, and at the call of line 547 when line 493 has
  thrown.
\<close>

definition popped :: "string list \<Rightarrow> AppState \<Rightarrow> AppState" where
  "popped rest s = s\<lparr> queueRef := rest, activeWorkersRef := activeWorkersRef s + 1 \<rparr>"

definition suspend :: "closure \<Rightarrow> nat \<Rightarrow> string \<Rightarrow> string \<Rightarrow> AppState \<Rightarrow> AppState" where
  "suspend c w fileId' key s1 =
     (let s2 = markProcessing fileId' key s1
      in s2\<lparr> awaiting := awaiting s2 @
              [\<lparr> scope = c, workerId = w, fileId = fileId', selectedKey = key \<rparr>] \<rparr>)"

definition afterThrow :: "string \<Rightarrow> string \<Rightarrow> int \<Rightarrow> AppState \<Rightarrow> AppState" where
  "afterThrow fileId' key now s1 =
     (let s3 = catchBlock fileId' key (newError ''File not found in state'') now
                 (markProcessing fileId' key s1)
      in s3\<lparr> activeWorkersRef := activeWorkersRef s3 - 1 \<rparr>)"

text \<open>
  Lines 495 to 547, from the point where the awaited call settles: the worker at position
  \<open>i\<close> of the suspended ones continues with the result or the rejection.
\<close>

definition removeAt :: "nat \<Rightarrow> 'a list \<Rightarrow> 'a list" where
  "removeAt i xs = take i xs @ drop (Suc i) xs"

definition resumeWorker :: "nat \<Rightarrow> jsError + GenerationResult \<Rightarrow> int \<Rightarrow> AppState \<Rightarrow> AppState" where
  "resumeWorker i settled now s =
     (let w = awaiting s ! i;
          s0 = s\<lparr> awaiting := removeAt i (awaiting s) \<rparr>;
          s1 = (case settled of
                  Inr r \<Rightarrow> successBlock w r s0
                | Inl err \<Rightarrow> catchBlock (fileId w) (selectedKey w) err now s0)
      in spawnWorker (scope w) (workerId w) now
           (s1\<lparr> activeWorkersRef := activeWorkersRef s1 - 1 \<rparr>))"

text \<open>The state in which the resumed worker calls \<^verbatim>\<open>spawnWorker\<close> again (line 547).\<close>

definition afterSettle :: "nat \<Rightarrow> jsError + GenerationResult \<Rightarrow> int \<Rightarrow> AppState \<Rightarrow> AppState" where
  "afterSettle i result now s =
     (let w = awaiting s ! i;
          s0 = s\<lparr> awaiting := removeAt i (awaiting s) \<rparr>;
          s1 = (case result of
                  Inr r \<Rightarrow> successBlock w r s0
                | Inl err \<Rightarrow> catchBlock (fileId w) (selectedKey w) err now s0)
      in s1\<lparr> activeWorkersRef := activeWorkersRef s1 - 1 \<rparr>)"

subsection \<open>Starting a run (lines 388 to 425)\<close>

definition isTarget :: "FileItem \<Rightarrow> bool" where
  "isTarget f = (status f = Pending \<or> status f = Failed)"

text \<open>Lines 402 to 412: the state when the workers are about to be spawned.\<close>

definition seedQueue :: "AppState \<Rightarrow> AppState" where
  "seedQueue s =
     (let targetFiles = filter isTarget (files s)
      in s\<lparr> files := map (\<lambda>f. if status f = Failed
                                then f\<lparr> status := Pending, error := None \<rparr> else f) (files s),
            isProcessing := True,
            processingRef := True,
            activeWorkersRef := 0,
            queueRef := map id_file targetFiles,
            activeKeysRef := {} \<rparr>)"

definition maxConcurrency :: "string list \<Rightarrow> nat" where
  "maxConcurrency keys = min 20 (max 2 (length keys * 2))"

definition startProcessing :: "int \<Rightarrow> AppState \<Rightarrow> AppState" where
  "startProcessing now s =
     (if length (apiKeys s) = 0 then s
      else if length (filter isTarget (files s)) = 0 then s
      else fold (\<lambda>i. spawnWorker \<lparr> apiKeys_c = apiKeys s, files_c = files s \<rparr> (i + 1) now)
             [0..<maxConcurrency (apiKeys s)] (seedQueue s))"

subsection \<open>The other handlers\<close>

text \<open>\<^verbatim>\<open>onRetry\<close>, lines 725 to 727.\<close>

definition retryItem :: "string \<Rightarrow> AppState \<Rightarrow> AppState" where
  "retryItem i s =
     s\<lparr> files := map (\<lambda>f. if id_file f = i then f\<lparr> status := Pending \<rparr> else f) (files s) \<rparr>"

text \<open>
  \<^verbatim>\<open>handleSetApiKeys\<close> followed by the effect of lines 221 to 224, which runs when
  the list of keys is replaced.
\<close>

definition handleSetApiKeys :: "string list \<Rightarrow> AppState \<Rightarrow> AppState" where
  "handleSetApiKeys keys s =
     s\<lparr> apiKeys := keys, cooldownKeysRef := Map.empty, nextKeyIdxRef := 0 \<rparr>"

text \<open>\<^verbatim>\<open>processFiles\<close>, with the new items as they leave the \<^verbatim>\<open>map\<close> of line 282.\<close>

definition processFiles :: "FileItem list \<Rightarrow> AppState \<Rightarrow> AppState" where
  "processFiles newFiles s = s\<lparr> files := files s @ newFiles \<rparr>"

definition handleClearAll :: "AppState \<Rightarrow> AppState" where
  "handleClearAll s = s\<lparr> files := [], isProcessing := False, processingRef := False \<rparr>"

definition handleDelete :: "string \<Rightarrow> AppState \<Rightarrow> AppState" where
  "handleDelete i s = s\<lparr> files := filter (\<lambda>f. id_file f \<noteq> i) (files s) \<rparr>"

subsection \<open>The event loop\<close>

text \<open>
  Between two suspensions the code runs alone, so a run of the application is a sequence
  of events, each handled to its end: a click or an input of the user, the settling of an
  awaited call, or a timer. Pending timers fire in any order here, which covers the order
  of the browser.
\<close>

datatype event =
    SetApiKeys "string list"
  | ProcessFiles "FileItem list"
  | ClearAll
  | Delete string
  | Retry string
  | StartProcessing int
  | Settle nat "jsError + GenerationResult" int
  | Timer nat int

text \<open>
  What a new item is: \<^verbatim>\<open>Pending\<close>, without an error, under an id of
  \<^verbatim>\<open>uuidv4()\<close>, which is not empty and has not been given before.
\<close>

definition freshItems :: "FileItem list \<Rightarrow> AppState \<Rightarrow> bool" where
  "freshItems newFiles s =
     (list_all (\<lambda>f. status f = Pending \<and> error f = None \<and> id_file f \<noteq> [] \<and>
                     id_file f \<notin> set (map id_file (files s))) newFiles \<and>
      distinct (map id_file newFiles))"

definition runTask :: "task \<Rightarrow> int \<Rightarrow> AppState \<Rightarrow> AppState" where
  "runTask t now s =
     (case t of
        SpawnTask c workerId' \<Rightarrow> spawnWorker c workerId' now s
      | CompletionTask \<Rightarrow> completionCallback s)"

text \<open>
  An event is possible when the control that raises it is enabled: the key field, the file
  inputs, Clear All and the Delete button of a card are disabled while
  \<^verbatim>\<open>isProcessing\<close> holds, the Generate button is only rendered when it does not,
  and the key field keeps the non-empty entries. The handler of the Retry button has no
  guard, and of the two versions of the card in the repository the one with the toolbar
  shows the button on every Failed item, also during a run; so a retry is possible at any
  time here. Editing the metadata of a completed item changes neither a status nor the
  scheduler and is left out.
\<close>

definition fire :: "event \<Rightarrow> AppState \<Rightarrow> AppState option" where
  "fire e s =
     (case e of
        SetApiKeys keys \<Rightarrow>
          if \<not> isProcessing s \<and> list_all (\<lambda>k. k \<noteq> []) keys
          then Some (handleSetApiKeys keys s) else None
      | ProcessFiles newFiles \<Rightarrow>
          if \<not> isProcessing s \<and> freshItems newFiles s
          then Some (processFiles newFiles s) else None
      | ClearAll \<Rightarrow>
          if \<not> isProcessing s \<and> files s \<noteq> [] then Some (handleClearAll s) else None
      | Delete i \<Rightarrow>
          if \<not> isProcessing s then Some (handleDelete i s) else None
      | Retry i \<Rightarrow> Some (retryItem i s)
      | StartProcessing now \<Rightarrow>
          if \<not> isProcessing s then Some (startProcessing now s) else None
      | Settle i settled now \<Rightarrow>
          if i < length (awaiting s) then Some (resumeWorker i settled now s) else None
      | Timer i now \<Rightarrow>
          if i < length (timers s)
          then Some (runTask (snd (timers s ! i)) now (s\<lparr> timers := removeAt i (timers s) \<rparr>))
          else None)"

text \<open>
  The states a run of the application can be in, when the events are taken from those that
  \<open>allowed\<close> admits.
\<close>

inductive reachableBy :: "(event \<Rightarrow> AppState \<Rightarrow> bool) \<Rightarrow> AppState \<Rightarrow> bool"
  for allowed :: "event \<Rightarrow> AppState \<Rightarrow> bool" where
  initial: "reachableBy allowed initialState"
| step: "reachableBy allowed s \<Longrightarrow> allowed e s \<Longrightarrow> fire e s = Some s' \<Longrightarrow> reachableBy allowed s'"

fun anyEvent :: "event \<Rightarrow> AppState \<Rightarrow> bool" where
  "anyEvent e s = True"

definition reachable :: "AppState \<Rightarrow> bool" where
  "reachable s = reachableBy anyEvent s"

text \<open>The events of a user who leaves the Retry buttons alone while a run is going on.\<close>

fun noRetryInRun :: "event \<Rightarrow> AppState \<Rightarrow> bool" where
  "noRetryInRun (Retry i) s = (\<not> processingRef s)"
| "noRetryInRun e s = True"


section \<open>Notions of the specification\<close>

text \<open>
  A text field of the returned metadata against the value the model gave for it: the
  value itself when it is truthy, the empty string otherwise, hence a string exactly when
  the model gave a string or nothing that counts.
\<close>

definition populatedFrom :: "jsval \<Rightarrow> jsval \<Rightarrow> bool" where
  "populatedFrom model result \<longleftrightarrow>
     (truthy model \<longrightarrow> result = model) \<and>
     (\<not> truthy model \<longrightarrow> result = Some (JStr '''')) \<and>
     (isString result \<longleftrightarrow> isString model \<or> \<not> truthy model)"

text \<open>
  What holds of the scheduler between any two events: the ids of the files are distinct and
  not empty; the queue holds no id twice, none that is empty and none that a suspended worker
  holds, and what is queued or held is the id of a file; no two
  suspended workers hold the same file or the same key, and the keys they hold are marked
  busy; the counter of active workers counts them; outside a run nothing is queued or in
  flight; a file shown as Processing is in flight.
\<close>

definition schedulerInv :: "AppState \<Rightarrow> bool" where
  "schedulerInv s \<longleftrightarrow>
     distinct (map id_file (files s)) \<and>
     [] \<notin> set (map id_file (files s)) \<and>
     distinct (queueRef s) \<and>
     [] \<notin> set (queueRef s) \<and>
     distinct (map fileId (awaiting s)) \<and>
     [] \<notin> set (map fileId (awaiting s)) \<and>
     set (queueRef s) \<inter> set (map fileId (awaiting s)) = {} \<and>
     set (queueRef s) \<union> set (map fileId (awaiting s)) \<subseteq> set (map id_file (files s)) \<and>
     distinct (map selectedKey (awaiting s)) \<and>
     set (map selectedKey (awaiting s)) \<subseteq> activeKeysRef s \<and>
     activeWorkersRef s = int (length (awaiting s)) \<and>
     isProcessing s = processingRef s \<and>
     (\<not> processingRef s \<longrightarrow> awaiting s = [] \<and> queueRef s = []) \<and>
     (\<forall>f\<in>set (files s). status f = Processing \<longrightarrow> id_file f \<in> set (map fileId (awaiting s)))"

text \<open>A credential the selection may return: neither busy nor in cooldown.\<close>

definition eligible :: "string set \<Rightarrow> (string \<rightharpoonup> int) \<Rightarrow> string \<Rightarrow> bool" where
  "eligible active cooling key = (key \<notin> active \<and> cooling key = None)"

section \<open>A small run\<close>

definition exampleMetadata :: FileMetadata where
  "exampleMetadata =
     \<lparr> en = \<lparr> title = Some (JStr ''''), keywords' = Some (JStr '''') \<rparr>,
       ind = \<lparr> title = Some (JStr ''''), keywords' = Some (JStr '''') \<rparr>,
       category = Some (JStr '''') \<rparr>"

definition exampleFile :: "string \<Rightarrow> FileItem" where
  "exampleFile i =
     \<lparr> id_file = i, name_file = i @ ''.jpg'', type_file = Image, status = Pending,
       metadata_file = exampleMetadata, thumbnail_file = None, error = None \<rparr>"

text \<open>One key, two files, and the state right after the click on Generate at time 0.\<close>

definition exampleIdle :: AppState where
  "exampleIdle =
     processFiles [exampleFile ''a'', exampleFile ''b''] (handleSetApiKeys [''key-1''] initialState)"

definition exampleRun :: AppState where
  "exampleRun = startProcessing 0 exampleIdle"

section \<open>Notions for the runs\<close>

text \<open>The clock reading of an event that runs worker code.\<close>

fun eventTime :: "event \<Rightarrow> int option" where
  "eventTime (StartProcessing now) = Some now"
| "eventTime (Settle i settled now) = Some now"
| "eventTime (Timer i now) = Some now"
| "eventTime e = None"

text \<open>Whether an event happens no later than \<open>t\<close>; an event without worker code always does.\<close>

definition notAfter :: "int \<Rightarrow> event \<Rightarrow> bool" where
  "notAfter t e = (case eventTime e of None \<Rightarrow> True | Some now \<Rightarrow> now \<le> t)"

fun replacesKeys :: "event \<Rightarrow> bool" where
  "replacesKeys (SetApiKeys keys) = True"
| "replacesKeys e = False"

text \<open>
  A key is kept out until \<open>t\<close>: its cooldown entry expires no earlier than \<open>t\<close>,
  and the only suspended workers that hold it are among \<open>held\<close>.
\<close>

definition keptOut :: "string \<Rightarrow> int \<Rightarrow> worker set \<Rightarrow> AppState \<Rightarrow> bool" where
  "keptOut key t held s \<longleftrightarrow>
     (\<exists>expiry. cooldownKeysRef s key = Some expiry \<and> t \<le> expiry) \<and>
     (\<forall>w\<in>set (awaiting s). selectedKey w = key \<longrightarrow> w \<in> held)"



text \<open>The call for the first file is rejected with a rate limit at time 5.\<close>

definition exampleCooling :: AppState where
  "exampleCooling = resumeWorker 0 (Inl (newError ''429 Too Many Requests'')) 5 exampleRun"

definition exampleResult :: GenerationResult where
  "exampleResult = \<lparr> metadata = exampleMetadata, thumbnail = None \<rparr>"

text \<open>Both calls succeed, at times 5 and 9; then the completion timer fires.\<close>

definition exampleSecond :: AppState where
  "exampleSecond = resumeWorker 0 (Inr exampleResult) 5 exampleRun"

definition exampleDrained :: AppState where
  "exampleDrained = resumeWorker 0 (Inr exampleResult) 9 exampleSecond"

definition exampleFinished :: AppState where
  "exampleFinished =
     completionCallback (exampleDrained\<lparr> timers := removeAt 1 (timers exampleDrained) \<rparr>)"

section \<open>The generation call: what a successful call returns\<close>

lemma isString_orElse:
  "isString (orElse v (Some (JStr []))) = (isString v \<or> \<not> truthy v)"
  by (cases v rule: truthy.cases) (simp_all add: orElse_def)

lemma populatedFrom_orElse: "populatedFrom v (orElse v (Some (JStr [])))"
  unfolding populatedFrom_def isString_orElse by (simp add: orElse_def)

lemma find_id_cat:
  "(find (\<lambda>c. Some (JStr (id_cat c)) = v) cs = None) =
     (\<forall>c\<in>set cs. v \<noteq> Some (JStr (id_cat c)))"
  by (induction cs) auto

lemma getProp_Some:
  "getProp (Some parsed) k =
     (if parsed = JNull then Inl (JsError ''TypeError'' ''Cannot read properties of null'')
      else Inr (member parsed k))"
  by (cases parsed) (simp_all add: getProp_def)

lemma buildResult_Inr:
  assumes "buildResult CATEGORIES parsed thumb = Inr r"
  shows "title (en (metadata r)) = orElse (optChain (member parsed ''en'') ''title'') (Some (JStr ''''))"
    and "keywords' (en (metadata r)) = orElse (optChain (member parsed ''en'') ''keywords'') (Some (JStr ''''))"
    and "title (ind (metadata r)) = orElse (optChain (member parsed ''ind'') ''title'') (Some (JStr ''''))"
    and "keywords' (ind (metadata r)) = orElse (optChain (member parsed ''ind'') ''keywords'') (Some (JStr ''''))"
    and "category (metadata r) =
           (if \<exists>c\<in>set CATEGORIES. member parsed ''category'' = Some (JStr (id_cat c))
            then member parsed ''category'' else Some (JStr ''8''))"
    and "thumbnail r = thumb"
  using assms
  by (auto simp: buildResult_def getProp_Some Let_def find_id_cat split: if_splits)

lemma generateMetadataForFile_Inr:
  assumes "generateMetadataForFile CATEGORIES thumb outcome parseOutcome = Inr r"
  shows "\<exists>t parsed. outcome = ApiResolved (Some t) \<and> t \<noteq> [] \<and> parseOutcome = Inr parsed \<and>
           buildResult CATEGORIES parsed thumb = Inr r"
  using assms
  by (auto simp: generateMetadataForFile_def
           split: callOutcome.splits option.splits if_splits sum.splits)

text \<open>
  C10, as stated, fails: a model that answers with a number where a title is expected gets
  the number back as the English title, since \<^verbatim>\<open>parsed.en?.title || ""\<close> only
  replaces what is falsy.
\<close>

theorem generateMetadataForFile_title_not_string:
  "generateMetadataForFile
      [\<lparr> id_cat = ''1'', en_cat = ''Animals'', id_lang = ''Hewan'' \<rparr>] None
      (ApiResolved (Some ''(response text)''))
      (Inr (JObj [(''en'', JObj [(''title'', JNum 5), (''keywords'', JStr ''cat'')]),
                  (''ind'', JObj [(''title'', JStr ''Kucing''), (''keywords'', JStr ''kucing'')]),
                  (''category'', JStr ''1'')]))
    = Inr \<lparr> metadata = \<lparr> en = \<lparr> title = Some (JNum 5), keywords' = Some (JStr ''cat'') \<rparr>,
                          ind = \<lparr> title = Some (JStr ''Kucing''), keywords' = Some (JStr ''kucing'') \<rparr>,
                          category = Some (JStr ''1'') \<rparr>,
            thumbnail = None \<rparr>
   \<and> \<not> isString (Some (JNum 5))"
  by (simp add: generateMetadataForFile_def buildResult_def getProp_def optChain_def orElse_def)

text \<open>
  C10, amended: for every successful call of \<^verbatim>\<open>generateMetadataForFile\<close>, each of
  the English and Indonesian title and keywords fields is the model's value when that value
  is truthy and the empty string otherwise (so it is a string whenever the model gave a
  string or omitted the field), and the returned category is always a string: the model's
  category when that id is in \<^verbatim>\<open>CATEGORIES\<close>, the literal id 8 otherwise.
\<close>

theorem generateMetadataForFile_populated:
  assumes "generateMetadataForFile CATEGORIES thumb outcome parseOutcome = Inr r"
  shows "\<exists>parsed. parseOutcome = Inr parsed \<and>
          populatedFrom (optChain (member parsed ''en'') ''title'') (title (en (metadata r))) \<and>
          populatedFrom (optChain (member parsed ''en'') ''keywords'') (keywords' (en (metadata r))) \<and>
          populatedFrom (optChain (member parsed ''ind'') ''title'') (title (ind (metadata r))) \<and>
          populatedFrom (optChain (member parsed ''ind'') ''keywords'') (keywords' (ind (metadata r))) \<and>
          isString (category (metadata r)) \<and>
          ((\<exists>c\<in>set CATEGORIES. member parsed ''category'' = Some (JStr (id_cat c)))
             \<longrightarrow> category (metadata r) = member parsed ''category'') \<and>
          ((\<forall>c\<in>set CATEGORIES. member parsed ''category'' \<noteq> Some (JStr (id_cat c)))
             \<longrightarrow> category (metadata r) = Some (JStr ''8''))"
proof -
  from generateMetadataForFile_Inr [OF assms] obtain parsed
    where p: "parseOutcome = Inr parsed" and b: "buildResult CATEGORIES parsed thumb = Inr r"
    by blast
  note f = buildResult_Inr [OF b]
  have "isString (category (metadata r))"
    unfolding f(5) by auto
  moreover have "(\<exists>c\<in>set CATEGORIES. member parsed ''category'' = Some (JStr (id_cat c)))
             \<longrightarrow> category (metadata r) = member parsed ''category''"
    unfolding f(5) by simp
  moreover have "(\<forall>c\<in>set CATEGORIES. member parsed ''category'' \<noteq> Some (JStr (id_cat c)))
             \<longrightarrow> category (metadata r) = Some (JStr ''8'')"
    unfolding f(5) by simp
  ultimately show ?thesis
    using p by (simp add: f(1-4) populatedFrom_orElse)
qed

theorem generateMetadataForFile_populated_witness:
  "generateMetadataForFile
      [\<lparr> id_cat = ''1'', en_cat = ''Animals'', id_lang = ''Hewan'' \<rparr>] None
      (ApiResolved (Some ''(response text)''))
      (Inr (JObj [(''en'', JObj [(''title'', JStr ''Cat'')]),
                  (''ind'', JNull),
                  (''category'', JStr ''77'')]))
    = Inr \<lparr> metadata = \<lparr> en = \<lparr> title = Some (JStr ''Cat''), keywords' = Some (JStr '''') \<rparr>,
                          ind = \<lparr> title = Some (JStr ''''), keywords' = Some (JStr '''') \<rparr>,
                          category = Some (JStr ''8'') \<rparr>,
            thumbnail = None \<rparr>
   \<and> populatedFrom (Some (JStr ''Cat'')) (Some (JStr ''Cat''))
   \<and> populatedFrom None (Some (JStr ''''))
   \<and> isString (Some (JStr ''8''))"
proof -
  have h: "generateMetadataForFile
      [\<lparr> id_cat = ''1'', en_cat = ''Animals'', id_lang = ''Hewan'' \<rparr>] None
      (ApiResolved (Some ''(response text)''))
      (Inr (JObj [(''en'', JObj [(''title'', JStr ''Cat'')]),
                  (''ind'', JNull),
                  (''category'', JStr ''77'')]))
    = Inr \<lparr> metadata = \<lparr> en = \<lparr> title = Some (JStr ''Cat''), keywords' = Some (JStr '''') \<rparr>,
                          ind = \<lparr> title = Some (JStr ''''), keywords' = Some (JStr '''') \<rparr>,
                          category = Some (JStr ''8'') \<rparr>,
            thumbnail = None \<rparr>"
    by (simp add: generateMetadataForFile_def buildResult_def getProp_def optChain_def orElse_def)
  from generateMetadataForFile_populated [OF h] show ?thesis
    using h by (simp add: optChain_def)
qed

section \<open>The built-in timeout of the generation call\<close>

text \<open>
  C1: the rejection of the 60 second timer prints as
  \<^verbatim>\<open>Error: Request timed out (60s limit)\<close>, in which the worker finds none of its six
  words (\<^verbatim>\<open>timeout\<close> is not part of \<^verbatim>\<open>timed out\<close>). The \<^verbatim>\<open>catch\<close> block
  therefore takes the other branch: the status of the item becomes \<^verbatim>\<open>Failed\<close>
  with the message recorded, the queue is left as it is and no cooldown is set.
\<close>

theorem builtin_timeout_marks_item_Failed:
  "generateMetadataForFile CATEGORIES thumb TimedOut parseOutcome = Inl timeoutError \<and>
   \<not> isKeyError (toLowerCase (String_err timeoutError)) \<and>
   catchBlock fileId' key timeoutError now s =
     s\<lparr> activeKeysRef := activeKeysRef s - {key},
        files := map (\<lambda>f. if id_file f = fileId'
                           then f\<lparr> status := Failed,
                                   error := Some ''Error: Request timed out (60s limit)'' \<rparr>
                           else f) (files s) \<rparr>"
  by (simp add: generateMetadataForFile_def catchBlock_def isKeyError_def toLowerCase_def
        timeoutError_def newError_def)

section \<open>Key selection\<close>

lemma keyLoop_Some:
  "keyLoop keys active cooling p i = Some (k, p') \<Longrightarrow>
     \<exists>j. i \<le> j \<and> j < length keys \<and> k = keys ! ((p + j) mod length keys) \<and>
         p' = ((p + j) mod length keys + 1) mod length keys \<and>
         eligible active cooling k \<and>
         (\<forall>j'. i \<le> j' \<and> j' < j \<longrightarrow> \<not> eligible active cooling (keys ! ((p + j') mod length keys)))"
proof (induction keys active cooling p i rule: keyLoop.induct)
  case (1 keys active cooling p i)
  show ?case
  proof (cases "i < length keys")
    case False
    with "1.prems" show ?thesis by (simp add: keyLoop.simps)
  next
    case lt: True
    show ?thesis
    proof (cases "eligible active cooling (keys ! ((p + i) mod length keys))")
      case True
      with lt "1.prems" have "k = keys ! ((p + i) mod length keys)"
        and "p' = ((p + i) mod length keys + 1) mod length keys"
        by (simp_all add: keyLoop.simps [of keys active cooling p i] eligible_def Let_def)
      with lt True show ?thesis by (intro exI [of _ i]) auto
    next
      case False
      with lt "1.prems" have rec: "keyLoop keys active cooling p (i + 1) = Some (k, p')"
        by (auto simp add: keyLoop.simps [of keys active cooling p i] eligible_def Let_def split: if_splits)
      from False lt have "\<not> (keys ! ((p + i) mod length keys) \<notin> active \<and> \<not> cooling (keys ! ((p + i) mod length keys)) \<noteq> None)"
        by (simp add: eligible_def)
      from "1.IH" [OF refl lt refl refl refl refl this rec]
      obtain j where j: "i + 1 \<le> j" "j < length keys" "k = keys ! ((p + j) mod length keys)"
        "p' = ((p + j) mod length keys + 1) mod length keys"
        "eligible active cooling k"
        "\<forall>j'. i + 1 \<le> j' \<and> j' < j \<longrightarrow> \<not> eligible active cooling (keys ! ((p + j') mod length keys))"
        by blast
      have "\<forall>j'. i \<le> j' \<and> j' < j \<longrightarrow> \<not> eligible active cooling (keys ! ((p + j') mod length keys))"
      proof (intro allI impI)
        fix j' assume a: "i \<le> j' \<and> j' < j"
        show "\<not> eligible active cooling (keys ! ((p + j') mod length keys))"
        proof (cases "j' = i")
          case True with False show ?thesis by simp
        next
          case False with a j(6) show ?thesis by simp
        qed
      qed
      with j show ?thesis by (intro exI [of _ j]) auto
    qed
  qed
qed

lemma keyLoop_None:
  "keyLoop keys active cooling p i = None \<Longrightarrow> i \<le> j \<Longrightarrow> j < length keys \<Longrightarrow>
     \<not> eligible active cooling (keys ! ((p + j) mod length keys))"
proof (induction keys active cooling p i rule: keyLoop.induct)
  case (1 keys active cooling p i)
  from "1.prems" have lt: "i < length keys" by simp
  have ne: "\<not> eligible active cooling (keys ! ((p + i) mod length keys))"
    using "1.prems"(1) lt
    by (auto simp add: keyLoop.simps [of keys active cooling p i] eligible_def Let_def split: if_splits)
  with lt "1.prems"(1) have rec: "keyLoop keys active cooling p (i + 1) = None"
    by (auto simp add: keyLoop.simps [of keys active cooling p i] eligible_def Let_def split: if_splits)
  show ?case
  proof (cases "j = i")
    case True with ne show ?thesis by simp
  next
    case False
    with "1.prems" have "i + 1 \<le> j" by simp
    moreover from ne have "\<not> (keys ! ((p + i) mod length keys) \<notin> active \<and> \<not> cooling (keys ! ((p + i) mod length keys)) \<noteq> None)"
        by (simp add: eligible_def)
    ultimately show ?thesis using "1.IH" [OF refl lt refl refl refl refl _ rec] "1.prems"(3) by blast
  qed
qed

section \<open>The invariant of the scheduler\<close>

lemma spawnWorker_unfold:
  "spawnWorker c w now s =
     (if \<not> processingRef s then s
      else case queueRef s of
             [] \<Rightarrow> checkCompletion s
           | fileId' # rest \<Rightarrow>
               if fileId' = [] then checkCompletion (s\<lparr> queueRef := rest \<rparr>)
               else
                 (case selectKey (apiKeys_c c) now (popped rest s) of
                    (None, s1) \<Rightarrow> backOff c w fileId' s1
                  | (Some key, s1) \<Rightarrow>
                      if key = [] then backOff c w fileId' s1
                      else if find (\<lambda>f. id_file f = fileId') (files_c c) = None
                      then spawnWorker c w now (afterThrow fileId' key now s1)
                      else suspend c w fileId' key s1))"
  by (subst spawnWorker.simps)
     (simp add: afterThrow_def suspend_def popped_def Let_def split: list.splits option.splits prod.splits)

lemma spawnWorker_preserves [consumes 1, case_names check drop backOff throw suspend]:
  assumes P: "P s"
    and chk: "\<And>s. P s \<Longrightarrow> processingRef s \<Longrightarrow> queueRef s = [] \<Longrightarrow> P (checkCompletion s)"
    and drp: "\<And>s rest. P s \<Longrightarrow> processingRef s \<Longrightarrow> queueRef s = [] # rest \<Longrightarrow>
                P (checkCompletion (s\<lparr> queueRef := rest \<rparr>))"
    and bck: "\<And>s fid rest r s1. P s \<Longrightarrow> processingRef s \<Longrightarrow> queueRef s = fid # rest \<Longrightarrow> fid \<noteq> [] \<Longrightarrow>
                selectKey (apiKeys_c c) now (popped rest s) = (r, s1) \<Longrightarrow> r = None \<or> r = Some [] \<Longrightarrow>
                P (backOff c w fid s1)"
    and thr: "\<And>s fid rest key s1. P s \<Longrightarrow> processingRef s \<Longrightarrow> queueRef s = fid # rest \<Longrightarrow> fid \<noteq> [] \<Longrightarrow>
                selectKey (apiKeys_c c) now (popped rest s) = (Some key, s1) \<Longrightarrow> key \<noteq> [] \<Longrightarrow>
                find (\<lambda>f. id_file f = fid) (files_c c) = None \<Longrightarrow>
                P (afterThrow fid key now s1)"
    and sus: "\<And>s fid rest key s1. P s \<Longrightarrow> processingRef s \<Longrightarrow> queueRef s = fid # rest \<Longrightarrow> fid \<noteq> [] \<Longrightarrow>
                selectKey (apiKeys_c c) now (popped rest s) = (Some key, s1) \<Longrightarrow> key \<noteq> [] \<Longrightarrow>
                find (\<lambda>f. id_file f = fid) (files_c c) \<noteq> None \<Longrightarrow>
                P (suspend c w fid key s1)"
  shows "P (spawnWorker c w now s)"
  using P
proof (induction "length (queueRef s)" arbitrary: s rule: less_induct)
  case less
  note P = less.prems
  show ?case
  proof (cases "processingRef s")
    case False
    with P show ?thesis by (simp add: spawnWorker_unfold)
  next
    case pr: True
    show ?thesis
    proof (cases "queueRef s")
      case Nil
      with pr chk [OF P] show ?thesis by (simp add: spawnWorker_unfold)
    next
      case (Cons fid rest)
      show ?thesis
      proof (cases "fid = []")
        case True
        with pr Cons drp [OF P, of rest] show ?thesis by (simp add: spawnWorker_unfold)
      next
        case ne: False
        obtain r s1 where sel: "selectKey (apiKeys_c c) now (popped rest s) = (r, s1)"
          by (cases "selectKey (apiKeys_c c) now (popped rest s)")
        show ?thesis
        proof (cases "r = None \<or> r = Some []")
          case True
          from bck [OF P pr Cons ne sel True] pr Cons ne sel True
          show ?thesis by (auto simp add: spawnWorker_unfold [of c w now s])
        next
          case False
          then obtain key where r: "r = Some key" and k: "key \<noteq> []" by (cases r) auto
          show ?thesis
          proof (cases "find (\<lambda>f. id_file f = fid) (files_c c) = None")
            case True
            have "P (afterThrow fid key now s1)"
              using thr [OF P pr Cons ne sel [unfolded r] k True] .
            moreover have "queueRef (afterThrow fid key now s1) = rest"
              using sel
              by (auto simp add: afterThrow_def selectKey_def catchBlock_def markProcessing_def
                    popped_def isKeyError_def toLowerCase_def newError_def Let_def
                    split: option.splits)
            ultimately have "P (spawnWorker c w now (afterThrow fid key now s1))"
              using Cons by (intro less.hyps) simp_all
            with pr Cons ne sel r k True show ?thesis
              by (simp add: spawnWorker_unfold [of c w now s])
          next
            case False
            from sus [OF P pr Cons ne sel [unfolded r] k False] pr Cons ne sel r k False
            show ?thesis by (auto simp add: spawnWorker_unfold [of c w now s])
          qed
        qed
      qed
    qed
  qed
qed


lemma id_file_if: "id_file (if b then f else g) = (if b then id_file f else id_file g)"
  by simp

lemma status_if: "status (if b then f else g) = (if b then status f else status g)"
  by simp

lemmas map_id_file_update = id_file_if status_if comp_def image_iff

lemma selectKey_fields:
  assumes "selectKey keys now s = (r, s1)"
  shows "files s1 = files s" "queueRef s1 = queueRef s" "awaiting s1 = awaiting s"
    "activeKeysRef s1 = activeKeysRef s" "activeWorkersRef s1 = activeWorkersRef s"
    "processingRef s1 = processingRef s" "isProcessing s1 = isProcessing s"
    "timers s1 = timers s" "apiKeys s1 = apiKeys s"
    "cooldownKeysRef s1 = cleanCooldowns now (cooldownKeysRef s)"
  using assms by (auto simp: selectKey_def Let_def split: option.splits)

lemma keyLoop_eligible:
  "keyLoop keys active cooling p i = Some (k, p') \<Longrightarrow> eligible active cooling k"
proof (induction keys active cooling p i rule: keyLoop.induct)
  case (1 keys active cooling p i)
  show ?case
  proof (cases "i < length keys")
    case False
    with "1.prems" show ?thesis by (simp add: keyLoop.simps)
  next
    case lt: True
    show ?thesis
    proof (cases "eligible active cooling (keys ! ((p + i) mod length keys))")
      case True
      with lt "1.prems" show ?thesis
        by (simp add: keyLoop.simps [of keys active cooling p i] eligible_def Let_def)
    next
      case False
      with lt "1.prems" have rec: "keyLoop keys active cooling p (i + 1) = Some (k, p')"
        by (auto simp add: keyLoop.simps [of keys active cooling p i] eligible_def Let_def split: if_splits)
      from False lt have "\<not> (keys ! ((p + i) mod length keys) \<notin> active \<and> \<not> cooling (keys ! ((p + i) mod length keys)) \<noteq> None)"
        by (simp add: eligible_def)
      from "1.IH" [OF refl lt refl refl refl refl this rec] show ?thesis .
    qed
  qed
qed

lemma selectKey_Some:
  assumes "selectKey keys now s = (Some key, s1)"
  shows "key \<notin> activeKeysRef s" "cleanCooldowns now (cooldownKeysRef s) key = None"
  using assms keyLoop_eligible [of keys "activeKeysRef s" "cleanCooldowns now (cooldownKeysRef s)" "nextKeyIdxRef s" 0 key]
  by (auto simp: selectKey_def Let_def eligible_def split: option.splits)

lemma afterThrow_eq:
  "afterThrow fid key now s =
     s\<lparr> activeKeysRef := insert key (activeKeysRef s) - {key},
        files := map (\<lambda>f. if id_file f = fid
                           then f\<lparr> status := Failed, error := Some ''Error: File not found in state'' \<rparr>
                           else f) (files s),
        activeWorkersRef := activeWorkersRef s - 1 \<rparr>"
  by (simp add: afterThrow_def catchBlock_def markProcessing_def isKeyError_def toLowerCase_def
        newError_def Let_def comp_def if_distrib cong: if_cong)

lemma spawnWorker_schedulerInv:
  assumes "schedulerInv s"
  shows "schedulerInv (spawnWorker c w now s)"
  using assms
proof (induction rule: spawnWorker_preserves)
  case (check s)
  then show ?case by (auto simp add: schedulerInv_def checkCompletion_def)
next
  case (drop s rest)
  then show ?case by (auto simp add: schedulerInv_def checkCompletion_def)
next
  case (backOff s fid rest r s1)
  note f = selectKey_fields [OF backOff(5)]
  from backOff(1-4) show ?case
    by (auto simp add: schedulerInv_def backOff_def f popped_def)
next
  case (throw s fid rest key s1)
  note f = selectKey_fields [OF throw(5)]
  from selectKey_Some(1) [OF throw(5)] have k: "key \<notin> activeKeysRef s" by (simp add: popped_def)
  from throw(1-4) k show ?case
    unfolding afterThrow_eq
    by (auto simp add: schedulerInv_def f popped_def map_id_file_update cong: if_cong)
next
  case (suspend s fid rest key s1)
  note f = selectKey_fields [OF suspend(5)]
  from selectKey_Some(1) [OF suspend(5)] have k: "key \<notin> activeKeysRef s" by (simp add: popped_def)
  from suspend(1-4) k show ?case
    by (auto simp add: schedulerInv_def f popped_def suspend_def markProcessing_def map_id_file_update cong: if_cong)
qed

lemma removeAt_props:
  assumes "i < length xs"
  shows "xs = take i xs @ xs ! i # drop (Suc i) xs"
    and "length (removeAt i xs) = length xs - 1"
    and "set (removeAt i xs) \<subseteq> set xs"
proof -
  from assms show "xs = take i xs @ xs ! i # drop (Suc i) xs"
    by (simp add: id_take_nth_drop)
  from assms show "length (removeAt i xs) = length xs - 1"
    by (simp add: removeAt_def min_def)
  show "set (removeAt i xs) \<subseteq> set xs"
    by (auto simp add: removeAt_def dest: in_set_takeD in_set_dropD)
qed

lemma removeAt_distinct_map:
  assumes "i < length xs" "distinct (map f xs)"
  shows "distinct (map f (removeAt i xs))"
    and "f (xs ! i) \<notin> f ` set (removeAt i xs)"
    and "f ` set xs = insert (f (xs ! i)) (f ` set (removeAt i xs))"
proof -
  from assms(1) have eq: "xs = take i xs @ xs ! i # drop (Suc i) xs"
    by (rule removeAt_props)
  from assms(2) have d: "distinct (map f (take i xs @ xs ! i # drop (Suc i) xs))"
    using eq by simp
  from d show "distinct (map f (removeAt i xs))" by (auto simp add: removeAt_def)
  from d show "f (xs ! i) \<notin> f ` set (removeAt i xs)" by (auto simp add: removeAt_def)
  have "f ` set xs = f ` set (take i xs @ xs ! i # drop (Suc i) xs)" using eq by simp
  then show "f ` set xs = insert (f (xs ! i)) (f ` set (removeAt i xs))"
    by (auto simp add: removeAt_def)
qed

lemma resumeWorker_settled:
  "resumeWorker i result now s =
     spawnWorker (scope (awaiting s ! i)) (workerId (awaiting s ! i)) now (afterSettle i result now s)"
  by (simp add: resumeWorker_def afterSettle_def Let_def)

lemma afterSettle_schedulerInv:
  assumes inv: "schedulerInv s" and i: "i < length (awaiting s)"
  shows "schedulerInv (afterSettle i result now s)"
proof -
  let ?w = "awaiting s ! i"
  let ?rest = "removeAt i (awaiting s)"
  from inv have df: "distinct (map fileId (awaiting s))" and dk: "distinct (map selectedKey (awaiting s))"
    by (simp_all add: schedulerInv_def)
  note rf = removeAt_distinct_map [OF i df] and rk = removeAt_distinct_map [OF i dk]
  note rl = removeAt_props(2,3) [OF i]
  from i have win: "?w \<in> set (awaiting s)" by simp
  from inv i have pr: "processingRef s" by (auto simp add: schedulerInv_def)
  have len: "int (length (awaiting s)) - 1 = int (length ?rest)" using i rl(1) by simp
  show ?thesis
  proof (cases result)
    case (Inr r)
    from inv pr win rf rk rl(2) len show ?thesis
      unfolding afterSettle_def Inr
      apply (simp add: schedulerInv_def successBlock_def Let_def id_file_if status_if comp_def cong: if_cong)
      apply (auto simp add: image_iff)
      done
  next
    case (Inl err)
    show ?thesis
    proof (cases "isKeyError (toLowerCase (String_err err))")
      case True
      from inv pr win rf rk rl(2) len show ?thesis
        unfolding afterSettle_def Inl
        apply (simp add: schedulerInv_def catchBlock_def True Let_def id_file_if status_if comp_def cong: if_cong)
        apply (auto simp add: image_iff)
        done
    next
      case False
      from inv pr win rf rk rl(2) len show ?thesis
        unfolding afterSettle_def Inl
        apply (simp add: schedulerInv_def catchBlock_def False Let_def id_file_if status_if comp_def cong: if_cong)
        apply (auto simp add: image_iff)
        done
    qed
  qed
qed

lemma resumeWorker_schedulerInv:
  "schedulerInv s \<Longrightarrow> i < length (awaiting s) \<Longrightarrow> schedulerInv (resumeWorker i result now s)"
  unfolding resumeWorker_settled
  by (intro spawnWorker_schedulerInv afterSettle_schedulerInv)

lemma fold_spawnWorker_preserves:
  assumes "\<And>w s. P s \<Longrightarrow> P (spawnWorker c w now s)"
  shows "P s \<Longrightarrow> P (fold (\<lambda>i. spawnWorker c (i + 1) now) ws s)"
  by (induction ws arbitrary: s) (simp_all add: assms)

lemma distinct_map_filter_ids:
  "distinct (map id_file fs) \<Longrightarrow> distinct (map id_file (filter P fs))"
  by (simp add: distinct_map_filter)

lemma seedQueue_schedulerInv:
  assumes "schedulerInv s" "\<not> isProcessing s"
  shows "schedulerInv (seedQueue s)"
  using assms
  apply (simp add: schedulerInv_def seedQueue_def Let_def id_file_if status_if comp_def
      distinct_map_filter cong: if_cong)
  apply (auto simp add: image_iff)
  done

lemma startProcessing_schedulerInv:
  assumes "schedulerInv s" "\<not> isProcessing s"
  shows "schedulerInv (startProcessing now s)"
proof -
  have "schedulerInv (fold (\<lambda>i. spawnWorker c (i + 1) now) ws (seedQueue s))" for c ws
    by (rule fold_spawnWorker_preserves [where P = schedulerInv])
       (simp_all add: spawnWorker_schedulerInv seedQueue_schedulerInv assms)
  with assms(1) show ?thesis
    by (simp add: startProcessing_def)
qed

lemma completionCallback_schedulerInv:
  "schedulerInv s \<Longrightarrow> schedulerInv (completionCallback s)"
  by (auto simp add: schedulerInv_def completionCallback_def)

lemma timers_update_schedulerInv:
  "schedulerInv (s\<lparr> timers := t \<rparr>) = schedulerInv s"
  by (simp add: schedulerInv_def)

lemma processFiles_schedulerInv:
  assumes "schedulerInv s" "\<not> isProcessing s" "freshItems newFiles s"
  shows "schedulerInv (processFiles newFiles s)"
proof -
  from assms(3) have a: "\<forall>f\<in>set newFiles. status f = Pending \<and> id_file f \<noteq> [] \<and> id_file f \<notin> id_file ` set (files s)"
    and d: "distinct (map id_file newFiles)"
    by (auto simp add: freshItems_def list_all_iff)
  have 1: "id_file ` set (files s) \<inter> id_file ` set newFiles = {}"
  proof -
    have False if "x \<in> set (files s)" "y \<in> set newFiles" "id_file x = id_file y" for x y
    proof -
      from a that(2) have "id_file y \<notin> id_file ` set (files s)" by simp
      moreover from that(1) have "id_file x \<in> id_file ` set (files s)" by (rule imageI)
      ultimately show False using that(3) by simp
    qed
    then show ?thesis by auto
  qed
  have 2: "[] \<notin> id_file ` set newFiles"
  proof
    assume "[] \<in> id_file ` set newFiles"
    then obtain y where "y \<in> set newFiles" "id_file y = []" by auto
    with a show False by simp
  qed
  from a have 3: "\<forall>f\<in>set newFiles. status f \<noteq> Processing" by simp
  from assms(1) have old: "distinct (map id_file (files s))" "[] \<notin> id_file ` set (files s)"
    "\<forall>f\<in>set (files s). status f = Processing \<longrightarrow> id_file f \<in> set (map fileId (awaiting s))"
    by (simp_all add: schedulerInv_def)
  have f1: "distinct (map id_file (files s @ newFiles))"
    using old(1) d 1 by simp
  have f2: "[] \<notin> set (map id_file (files s @ newFiles))"
    using old(2) 2 by simp
  have f3: "\<forall>f\<in>set (files s @ newFiles). status f = Processing \<longrightarrow> id_file f \<in> set (map fileId (awaiting s))"
    using old(3) 3 by auto
  from assms(1,2) have idle: "queueRef s = []" "awaiting s = []"
    by (simp_all add: schedulerInv_def)
  from assms(1) f1 f2 f3 idle show ?thesis
    by (simp add: processFiles_def schedulerInv_def)
qed

lemma retryItem_schedulerInv:
  assumes "schedulerInv s"
  shows "schedulerInv (retryItem i s)"
  using assms
  apply (simp add: retryItem_def schedulerInv_def id_file_if status_if comp_def cong: if_cong)
  apply (auto simp add: image_iff)
  done


lemma handleSetApiKeys_schedulerInv:
  "schedulerInv s \<Longrightarrow> schedulerInv (handleSetApiKeys keys s)"
  by (simp add: handleSetApiKeys_def schedulerInv_def)


lemma handleClearAll_schedulerInv:
  "schedulerInv s \<Longrightarrow> \<not> isProcessing s \<Longrightarrow> schedulerInv (handleClearAll s)"
  by (simp add: handleClearAll_def schedulerInv_def)


lemma handleDelete_schedulerInv:
  "schedulerInv s \<Longrightarrow> \<not> isProcessing s \<Longrightarrow> schedulerInv (handleDelete i s)"
  by (auto simp add: handleDelete_def schedulerInv_def distinct_map_filter)


lemma runTask_schedulerInv:
  "schedulerInv s \<Longrightarrow> schedulerInv (runTask t now (s\<lparr> timers := ts \<rparr>))"
  by (cases t)
     (simp_all add: runTask_def timers_update_schedulerInv spawnWorker_schedulerInv
        completionCallback_schedulerInv)


lemma fire_schedulerInv:
  assumes "schedulerInv s" "fire e s = Some s'"
  shows "schedulerInv s'"
proof (cases e)
  case (SetApiKeys keys)
  with assms(2) have "s' = handleSetApiKeys keys s"
    by (simp add: fire_def split: if_splits)
  with assms(1) show ?thesis by (simp add: handleSetApiKeys_schedulerInv)
next
  case (ProcessFiles newFiles)
  with assms(2) have "s' = processFiles newFiles s" "\<not> isProcessing s" "freshItems newFiles s"
    by (simp_all add: fire_def split: if_splits)
  with assms(1) show ?thesis by (simp add: processFiles_schedulerInv)
next
  case ClearAll
  with assms(2) have "s' = handleClearAll s" "\<not> isProcessing s"
    by (simp_all add: fire_def split: if_splits)
  with assms(1) show ?thesis by (simp add: handleClearAll_schedulerInv)
next
  case (Delete i)
  with assms(2) have "s' = handleDelete i s" "\<not> isProcessing s"
    by (simp_all add: fire_def split: if_splits)
  with assms(1) show ?thesis by (simp add: handleDelete_schedulerInv)
next
  case (Retry i)
  with assms(2) have "s' = retryItem i s"
    by (simp add: fire_def)
  with assms(1) show ?thesis by (simp add: retryItem_schedulerInv)
next
  case (StartProcessing now)
  with assms(2) have "s' = startProcessing now s" "\<not> isProcessing s"
    by (simp_all add: fire_def split: if_splits)
  with assms(1) show ?thesis by (simp add: startProcessing_schedulerInv)
next
  case (Settle i result now)
  with assms(2) have "s' = resumeWorker i result now s" "i < length (awaiting s)"
    by (simp_all add: fire_def split: if_splits)
  with assms(1) show ?thesis by (simp add: resumeWorker_schedulerInv)
next
  case (Timer i now)
  with assms(2) have "s' = runTask (snd (timers s ! i)) now (s\<lparr> timers := removeAt i (timers s) \<rparr>)"
    by (simp add: fire_def split: if_splits)
  with assms(1) show ?thesis by (simp add: runTask_schedulerInv)
qed


lemma initialState_schedulerInv: "schedulerInv initialState"
  by (simp add: schedulerInv_def initialState_def)


lemma reachableBy_schedulerInv:
  "reachableBy allowed s \<Longrightarrow> schedulerInv s"
  by (induction rule: reachableBy.induct) (auto intro: initialState_schedulerInv fire_schedulerInv)


lemma reachable_schedulerInv: "reachable s \<Longrightarrow> schedulerInv s"
  unfolding reachable_def by (rule reachableBy_schedulerInv)

section \<open>Evaluating the small run\<close>

lemmas example_defs = exampleMetadata_def exampleFile_def exampleIdle_def exampleRun_def

lemmas eval_defs = initialState_def handleSetApiKeys_def processFiles_def startProcessing_def
  seedQueue_def maxConcurrency_def isTarget_def spawnWorker_unfold popped_def selectKey_def
  cleanCooldowns_def keyLoop.simps backOff_def suspend_def markProcessing_def afterThrow_def
  catchBlock_def successBlock_def checkCompletion_def completionCallback_def resumeWorker_def
  retryItem_def runTask_def removeAt_def freshItems_def fire_def
  isKeyError_def toLowerCase_def newError_def Let_def upt_rec

lemma reachable_initial: "reachable initialState"
  by (simp add: reachable_def reachableBy.initial)

lemma reachable_step: "reachable s \<Longrightarrow> fire e s = Some s' \<Longrightarrow> reachable s'"
  unfolding reachable_def by (rule reachableBy.step [where e = e]) simp_all

lemma reachable_exampleIdle: "reachable exampleIdle"
proof -
  have 1: "reachable (handleSetApiKeys [''key-1''] initialState)"
    by (rule reachable_step [OF reachable_initial, where e = "SetApiKeys [''key-1'']"])
       (simp add: fire_def initialState_def)
  show ?thesis
    unfolding exampleIdle_def
    by (rule reachable_step [OF 1, where e = "ProcessFiles [exampleFile ''a'', exampleFile ''b'']"])
       (simp add: fire_def initialState_def handleSetApiKeys_def freshItems_def exampleFile_def)
qed

lemma reachable_exampleRun: "reachable exampleRun"
  unfolding exampleRun_def
  by (rule reachable_step [OF reachable_exampleIdle, where e = "StartProcessing 0"])
     (simp add: fire_def exampleIdle_def initialState_def handleSetApiKeys_def processFiles_def)

section \<open>The work queue\<close>

text \<open>
  C3: in every reachable state the queue holds each id at most once, and no id of the queue
  is held by a suspended worker, that is, by a worker that has popped it and has not yet
  completed, failed or requeued it.
\<close>

theorem queue_ids_unique_and_not_in_flight:
  assumes "reachable s"
  shows "distinct (queueRef s) \<and> set (queueRef s) \<inter> set (map fileId (awaiting s)) = {}"
  using reachable_schedulerInv [OF assms] by (simp add: schedulerInv_def)

theorem queue_ids_unique_and_not_in_flight_witness:
  "reachable exampleRun \<and> queueRef exampleRun = [''b''] \<and> map fileId (awaiting exampleRun) = [''a'']
   \<and> distinct (queueRef exampleRun)
   \<and> set (queueRef exampleRun) \<inter> set (map fileId (awaiting exampleRun)) = {}"
proof -
  have q: "queueRef exampleRun = [''b'']" and a: "map fileId (awaiting exampleRun) = [''a'']"
    by (simp_all add: eval_defs example_defs)
  from queue_ids_unique_and_not_in_flight [OF reachable_exampleRun] reachable_exampleRun q a
  show ?thesis by simp
qed

lemma keyLoop_ineligible:
  assumes "\<forall>k\<in>set keys. \<not> eligible active cooling k"
  shows "keyLoop keys active cooling p i = None"
proof (cases "keyLoop keys active cooling p i")
  case None
  then show ?thesis .
next
  case (Some r)
  obtain k p' where r: "r = (k, p')" by (cases r)
  from keyLoop_Some [OF Some [unfolded r]] obtain j
    where j: "j < length keys" "k = keys ! ((p + j) mod length keys)" "eligible active cooling k"
    by blast
  from j(1) have "0 < length keys" by (cases keys) simp_all
  then have "(p + j) mod length keys < length keys" by (rule mod_less_divisor)
  with j(2) have "k \<in> set keys" by simp
  with assms j(3) show ?thesis by blast
qed

lemma cleanCooldowns_unexpired:
  "cleanCooldowns now m k = None \<longleftrightarrow> (\<forall>e. m k = Some e \<longrightarrow> e < now)"
  by (auto simp add: cleanCooldowns_def split: option.splits)

section \<open>Selecting a credential\<close>

text \<open>
  C4: a selection leaves in the cooldown map exactly the entries whose expiry is not before
  the current time; it then visits the positions \<open>pointer + j\<close> (modulo the number
  of keys) for \<open>j\<close> from 0, at most once each; it returns the key at the first
  position whose key is neither busy nor in cooldown and sets the pointer to the position
  after it (modulo the number of keys); when no position qualifies it returns nothing and
  leaves the pointer. Nothing else of the state changes.
\<close>

theorem selectKey_round_robin:
  assumes "selectKey keys now s = (selected, s1)"
  shows "(\<forall>key. cooldownKeysRef s1 key =
            (case cooldownKeysRef s key of
               None \<Rightarrow> None
             | Some expiry \<Rightarrow> if expiry < now then None else Some expiry)) \<and>
         s1 = s\<lparr> cooldownKeysRef := cooldownKeysRef s1, nextKeyIdxRef := nextKeyIdxRef s1 \<rparr> \<and>
         (case selected of
            None \<Rightarrow>
              (\<forall>j < length keys.
                 \<not> eligible (activeKeysRef s) (cooldownKeysRef s1)
                     (keys ! ((nextKeyIdxRef s + j) mod length keys))) \<and>
              nextKeyIdxRef s1 = nextKeyIdxRef s
          | Some key \<Rightarrow>
              (\<exists>j < length keys.
                 key = keys ! ((nextKeyIdxRef s + j) mod length keys) \<and>
                 eligible (activeKeysRef s) (cooldownKeysRef s1) key \<and>
                 (\<forall>j' < j. \<not> eligible (activeKeysRef s) (cooldownKeysRef s1)
                               (keys ! ((nextKeyIdxRef s + j') mod length keys))) \<and>
                 nextKeyIdxRef s1 = ((nextKeyIdxRef s + j) mod length keys + 1) mod length keys))"
proof -
  let ?cool = "cleanCooldowns now (cooldownKeysRef s)"
  have c: "cooldownKeysRef s1 = ?cool"
    using assms by (auto simp add: selectKey_def Let_def split: option.splits)
  have 1: "\<forall>key. cooldownKeysRef s1 key =
            (case cooldownKeysRef s key of
               None \<Rightarrow> None
             | Some expiry \<Rightarrow> if expiry < now then None else Some expiry)"
    unfolding c by (simp add: cleanCooldowns_def)
  have 2: "s1 = s\<lparr> cooldownKeysRef := cooldownKeysRef s1, nextKeyIdxRef := nextKeyIdxRef s1 \<rparr>"
    using assms by (auto simp add: selectKey_def Let_def split: option.splits)
  show ?thesis
  proof (cases "keyLoop keys (activeKeysRef s) ?cool (nextKeyIdxRef s) 0")
    case None
    with assms have sel: "selected = None" and p: "nextKeyIdxRef s1 = nextKeyIdxRef s"
      by (auto simp add: selectKey_def Let_def)
    from keyLoop_None [OF None] have
      "\<forall>j < length keys. \<not> eligible (activeKeysRef s) ?cool (keys ! ((nextKeyIdxRef s + j) mod length keys))"
      by simp
    with 1 2 sel p c show ?thesis by simp
  next
    case (Some r)
    obtain key p' where r: "r = (key, p')" by (cases r)
    with Some assms have sel: "selected = Some key" and p: "nextKeyIdxRef s1 = p'"
      by (auto simp add: selectKey_def Let_def)
    from keyLoop_Some [OF Some [unfolded r]] obtain j where
      "j < length keys" "key = keys ! ((nextKeyIdxRef s + j) mod length keys)"
      "p' = ((nextKeyIdxRef s + j) mod length keys + 1) mod length keys"
      "eligible (activeKeysRef s) ?cool key"
      "\<forall>j'. 0 \<le> j' \<and> j' < j \<longrightarrow> \<not> eligible (activeKeysRef s) ?cool (keys ! ((nextKeyIdxRef s + j') mod length keys))"
      by blast
    then have "\<exists>j < length keys.
                 key = keys ! ((nextKeyIdxRef s + j) mod length keys) \<and>
                 eligible (activeKeysRef s) (cooldownKeysRef s1) key \<and>
                 (\<forall>j' < j. \<not> eligible (activeKeysRef s) (cooldownKeysRef s1)
                               (keys ! ((nextKeyIdxRef s + j') mod length keys))) \<and>
                 nextKeyIdxRef s1 = ((nextKeyIdxRef s + j) mod length keys + 1) mod length keys"
      unfolding c p by (intro exI [of _ j]) simp
    with 1 2 sel show ?thesis by simp
  qed
qed


theorem selectKey_round_robin_witness:
  "fst (selectKey [''key-1'', ''key-2'', ''key-3''] 50
          (initialState\<lparr> activeKeysRef := {''key-1''},
                          cooldownKeysRef := [''key-2'' \<mapsto> 100, ''key-3'' \<mapsto> 40] \<rparr>))
     = Some ''key-3'' \<and>
   nextKeyIdxRef (snd (selectKey [''key-1'', ''key-2'', ''key-3''] 50
          (initialState\<lparr> activeKeysRef := {''key-1''},
                          cooldownKeysRef := [''key-2'' \<mapsto> 100, ''key-3'' \<mapsto> 40] \<rparr>))) = 0 \<and>
   cooldownKeysRef (snd (selectKey [''key-1'', ''key-2'', ''key-3''] 50
          (initialState\<lparr> activeKeysRef := {''key-1''},
                          cooldownKeysRef := [''key-2'' \<mapsto> 100, ''key-3'' \<mapsto> 40] \<rparr>))) ''key-3'' = None \<and>
   cooldownKeysRef (snd (selectKey [''key-1'', ''key-2'', ''key-3''] 50
          (initialState\<lparr> activeKeysRef := {''key-1''},
                          cooldownKeysRef := [''key-2'' \<mapsto> 100, ''key-3'' \<mapsto> 40] \<rparr>))) ''key-2'' = Some 100 \<and>
   eligible {''key-1''} [''key-2'' \<mapsto> 100] ''key-3''"
proof -
  let ?s = "initialState\<lparr> activeKeysRef := {''key-1''},
                          cooldownKeysRef := [''key-2'' \<mapsto> 100, ''key-3'' \<mapsto> (40::int)] \<rparr>"
  let ?r = "selectKey [''key-1'', ''key-2'', ''key-3''] 50 ?s"
  have e: "fst ?r = Some ''key-3''" "nextKeyIdxRef (snd ?r) = 0"
    by (simp_all add: selectKey_def cleanCooldowns_def keyLoop.simps initialState_def Let_def)
  have "?r = (fst ?r, snd ?r)" by simp
  from selectKey_round_robin [OF this] e show ?thesis
    by (simp add: initialState_def eligible_def)
qed

section \<open>No credential available\<close>

text \<open>
  C6: when a worker pops an item and every key is busy or in a cooldown that has not
  expired, the state it leaves differs from the one it found only in the purged cooldown
  map and in one more timer: the id is back at the front of the queue, the files (status,
  error) and the counter of active workers are as before, and the timer calls
  \<^verbatim>\<open>spawnWorker\<close> for the same worker after 1000 milliseconds.
\<close>

theorem no_key_available_backs_off:
  assumes "processingRef s" and "queueRef s = fileId' # rest" and "fileId' \<noteq> []"
    and "\<forall>key\<in>set (apiKeys_c c).
           key \<in> activeKeysRef s \<or> (\<exists>expiry. cooldownKeysRef s key = Some expiry \<and> now \<le> expiry)"
  shows "spawnWorker c w now s =
           s\<lparr> cooldownKeysRef := cleanCooldowns now (cooldownKeysRef s),
              timers := timers s @ [(1000, SpawnTask c w)] \<rparr> \<and>
         queueRef (spawnWorker c w now s) = fileId' # rest \<and>
         files (spawnWorker c w now s) = files s \<and>
         activeWorkersRef (spawnWorker c w now s) = activeWorkersRef s \<and>
         runTask (SpawnTask c w) = spawnWorker c w"
proof -
  have "\<forall>key\<in>set (apiKeys_c c).
          \<not> eligible (activeKeysRef s) (cleanCooldowns now (cooldownKeysRef s)) key"
    using assms(4) by (auto simp add: eligible_def cleanCooldowns_def)
  then have "keyLoop (apiKeys_c c) (activeKeysRef s) (cleanCooldowns now (cooldownKeysRef s))
               (nextKeyIdxRef s) 0 = None"
    by (rule keyLoop_ineligible)
  then have sel: "selectKey (apiKeys_c c) now (popped rest s) =
               (None, (popped rest s)\<lparr> cooldownKeysRef := cleanCooldowns now (cooldownKeysRef s) \<rparr>)"
    by (simp add: selectKey_def popped_def Let_def)
  have eq: "spawnWorker c w now s =
           s\<lparr> cooldownKeysRef := cleanCooldowns now (cooldownKeysRef s),
              timers := timers s @ [(1000, SpawnTask c w)] \<rparr>"
    using assms(1-3)
    by (simp add: spawnWorker_unfold [of c w now s] sel) (simp add: backOff_def popped_def)
  have "runTask (SpawnTask c w) = spawnWorker c w"
    by (rule ext, rule ext) (simp add: runTask_def)
  with eq assms(2) show ?thesis by simp
qed

theorem no_key_available_backs_off_witness:
  "processingRef exampleRun \<and> queueRef exampleRun = [''b''] \<and>
   activeKeysRef exampleRun = {''key-1''} \<and>
   queueRef (spawnWorker \<lparr> apiKeys_c = [''key-1''], files_c = files exampleIdle \<rparr> 2 1000 exampleRun) = [''b''] \<and>
   map status (files (spawnWorker \<lparr> apiKeys_c = [''key-1''], files_c = files exampleIdle \<rparr> 2 1000 exampleRun))
     = [Processing, Pending] \<and>
   map error (files (spawnWorker \<lparr> apiKeys_c = [''key-1''], files_c = files exampleIdle \<rparr> 2 1000 exampleRun))
     = [None, None] \<and>
   timers (spawnWorker \<lparr> apiKeys_c = [''key-1''], files_c = files exampleIdle \<rparr> 2 1000 exampleRun)
     = timers exampleRun @ [(1000, SpawnTask \<lparr> apiKeys_c = [''key-1''], files_c = files exampleIdle \<rparr> 2)]"
proof -
  have p: "processingRef exampleRun" and q: "queueRef exampleRun = ''b'' # []"
    and k: "activeKeysRef exampleRun = {''key-1''}"
    and f: "map status (files exampleRun) = [Processing, Pending]"
      "map error (files exampleRun) = [None, None]"
    by (simp_all add: eval_defs example_defs)
  have b: "''b'' \<noteq> []" by simp
  have a: "\<forall>key\<in>set (apiKeys_c \<lparr> apiKeys_c = [''key-1''], files_c = files exampleIdle \<rparr>).
           key \<in> activeKeysRef exampleRun \<or>
           (\<exists>expiry. cooldownKeysRef exampleRun key = Some expiry \<and> 1000 \<le> expiry)"
    by (simp add: k)
  from no_key_available_backs_off [OF p q b a, of 2] p q k f show ?thesis by simp
qed

section \<open>Cooldowns keep a credential out\<close>

lemma cleanCooldowns_keeps:
  "m key = Some expiry \<Longrightarrow> now \<le> expiry \<Longrightarrow> cleanCooldowns now m key = Some expiry"
  by (simp add: cleanCooldowns_def)

lemma spawnWorker_keptOut:
  assumes "keptOut key t held s" and "now \<le> t"
  shows "keptOut key t held (spawnWorker c w now s)"
  using assms(1)
proof (induction rule: spawnWorker_preserves)
  case (check s)
  then show ?case by (simp add: keptOut_def checkCompletion_def)
next
  case (drop s rest)
  then show ?case by (simp add: keptOut_def checkCompletion_def)
next
  case (backOff s fid rest r s1)
  note f = selectKey_fields [OF backOff(5)]
  from backOff(1) assms(2) show ?case
    by (auto simp add: keptOut_def backOff_def f popped_def cleanCooldowns_def)
next
  case (throw s fid rest key' s1)
  note f = selectKey_fields [OF throw(5)]
  from throw(1) assms(2) show ?case
    unfolding afterThrow_eq
    by (auto simp add: keptOut_def f popped_def cleanCooldowns_def)
next
  case (suspend s fid rest key' s1)
  note f = selectKey_fields [OF suspend(5)]
  from suspend(1) obtain expiry where e: "cooldownKeysRef s key = Some expiry" "t \<le> expiry"
    by (auto simp add: keptOut_def)
  with assms(2) have "cleanCooldowns now (cooldownKeysRef s) key = Some expiry"
    by (intro cleanCooldowns_keeps) simp_all
  moreover from selectKey_Some(2) [OF suspend(5)]
  have "cleanCooldowns now (cooldownKeysRef s) key' = None" by (simp add: popped_def)
  ultimately have ne: "key' \<noteq> key" by auto
  from suspend(1) assms(2) ne show ?case
    by (auto simp add: keptOut_def f popped_def suspend_def markProcessing_def cleanCooldowns_def)
qed

lemma afterSettle_keptOut:
  assumes "keptOut key t held s" and "i < length (awaiting s)"
    and "held = {} \<or> t \<le> now + 30000"
  shows "keptOut key t held (afterSettle i result now s)"
proof -
  from assms(2) have win: "awaiting s ! i \<in> set (awaiting s)" by simp
  note sub = removeAt_props(3) [OF assms(2)]
  from assms(1) obtain expiry where e: "cooldownKeysRef s key = Some expiry" "t \<le> expiry"
    by (auto simp add: keptOut_def)
  from assms(1) win assms(3) have ov: "selectedKey (awaiting s ! i) = key \<longrightarrow> t \<le> now + 30000"
    by (auto simp add: keptOut_def)
  have aw: "\<forall>w\<in>set (removeAt i (awaiting s)). selectedKey w = key \<longrightarrow> w \<in> held"
    using assms(1) sub by (auto simp add: keptOut_def)
  show ?thesis
  proof (cases result)
    case (Inr r)
    with e aw show ?thesis
      by (simp add: keptOut_def afterSettle_def successBlock_def Let_def)
  next
    case (Inl err)
    with e aw ov show ?thesis
      by (auto simp add: keptOut_def afterSettle_def catchBlock_def Let_def)
  qed
qed

lemma resumeWorker_keptOut:
  assumes "keptOut key t held s" and "i < length (awaiting s)"
    and "held = {} \<or> t \<le> now + 30000" and "now \<le> t"
  shows "keptOut key t held (resumeWorker i result now s)"
  unfolding resumeWorker_settled
  by (intro spawnWorker_keptOut afterSettle_keptOut assms)

lemma startProcessing_keptOut:
  assumes "keptOut key t held s" and "now \<le> t"
  shows "keptOut key t held (startProcessing now s)"
proof -
  from assms(1) have "keptOut key t held (seedQueue s)"
    by (simp add: keptOut_def seedQueue_def Let_def)
  then have "keptOut key t held (fold (\<lambda>i. spawnWorker c (i + 1) now) ws (seedQueue s))" for c ws
    by (rule fold_spawnWorker_preserves [where P = "keptOut key t held", rotated])
       (simp add: spawnWorker_keptOut assms(2))
  with assms(1) show ?thesis
    by (simp add: startProcessing_def)
qed

lemma fire_keptOut:
  assumes "keptOut key t held s" and "fire e s = Some s'" and "\<not> replacesKeys e"
    and "notAfter t e"
    and "held = {} \<or> (\<forall>now. eventTime e = Some now \<longrightarrow> t \<le> now + 30000)"
  shows "keptOut key t held s'"
proof (cases e)
  case (SetApiKeys keys)
  with assms(3) show ?thesis by simp
next
  case (ProcessFiles newFiles)
  with assms(1,2) show ?thesis
    by (auto simp add: fire_def processFiles_def keptOut_def split: if_splits)
next
  case ClearAll
  with assms(1,2) show ?thesis
    by (auto simp add: fire_def handleClearAll_def keptOut_def split: if_splits)
next
  case (Delete i)
  with assms(1,2) show ?thesis
    by (auto simp add: fire_def handleDelete_def keptOut_def split: if_splits)
next
  case (Retry i)
  with assms(1,2) show ?thesis
    by (auto simp add: fire_def retryItem_def keptOut_def split: if_splits)
next
  case (StartProcessing now)
  with assms(2) have "s' = startProcessing now s"
    by (simp add: fire_def split: if_splits)
  moreover from assms(4) StartProcessing have "now \<le> t" by (simp add: notAfter_def)
  ultimately show ?thesis using assms(1) by (simp add: startProcessing_keptOut)
next
  case (Settle i result now)
  with assms(2) have "s' = resumeWorker i result now s" "i < length (awaiting s)"
    by (simp_all add: fire_def split: if_splits)
  moreover from assms(4) Settle have "now \<le> t" by (simp add: notAfter_def)
  moreover from assms(5) Settle have "held = {} \<or> t \<le> now + 30000" by simp
  ultimately show ?thesis using assms(1) by (simp add: resumeWorker_keptOut)
next
  case (Timer i now)
  with assms(2) have s': "s' = runTask (snd (timers s ! i)) now (s\<lparr> timers := removeAt i (timers s) \<rparr>)"
    by (simp add: fire_def split: if_splits)
  from assms(4) Timer have n: "now \<le> t" by (simp add: notAfter_def)
  from assms(1) have k: "keptOut key t held (s\<lparr> timers := removeAt i (timers s) \<rparr>)"
    by (simp add: keptOut_def)
  show ?thesis
  proof (cases "snd (timers s ! i)")
    case (SpawnTask c w)
    with s' k n show ?thesis by (simp add: runTask_def spawnWorker_keptOut)
  next
    case CompletionTask
    with s' k show ?thesis by (simp add: runTask_def completionCallback_def keptOut_def)
  qed
qed


text \<open>
  C2: in every reachable state no two suspended workers hold the same key, and the keys
  they hold are marked busy; a selection never returns a key that is busy or whose cooldown
  has not expired; and whatever event comes next, it starts no worker on a key whose
  cooldown has not expired at the time of the event: a worker holding such a key after the
  event held it before.
\<close>

theorem credentials_exclusive_and_cooldown_respected:
  assumes "reachable s"
  shows "distinct (map selectedKey (awaiting s)) \<and>
         set (map selectedKey (awaiting s)) \<subseteq> activeKeysRef s \<and>
         (\<forall>keys now key s1. selectKey keys now s = (Some key, s1) \<longrightarrow>
            key \<notin> activeKeysRef s \<and>
            (\<forall>expiry. cooldownKeysRef s key = Some expiry \<longrightarrow> expiry < now)) \<and>
         (\<forall>e s' key expiry w.
            fire e s = Some s' \<and> cooldownKeysRef s key = Some expiry \<and> notAfter expiry e \<and>
            w \<in> set (awaiting s') \<and> selectedKey w = key \<longrightarrow> w \<in> set (awaiting s))"
proof -
  from reachable_schedulerInv [OF assms]
  have 1: "distinct (map selectedKey (awaiting s))"
    and 2: "set (map selectedKey (awaiting s)) \<subseteq> activeKeysRef s"
    by (simp_all add: schedulerInv_def)
  have 3: "key \<notin> activeKeysRef s \<and> (\<forall>expiry. cooldownKeysRef s key = Some expiry \<longrightarrow> expiry < now)"
    if "selectKey keys now s = (Some key, s1)" for keys now key s1
    using selectKey_Some [OF that] by (simp add: cleanCooldowns_unexpired)
  have 4: "w \<in> set (awaiting s)"
    if f: "fire e s = Some s'" and c: "cooldownKeysRef s key = Some expiry" and n: "notAfter expiry e"
      and w: "w \<in> set (awaiting s')" "selectedKey w = key" for e s' key expiry w
  proof (cases "replacesKeys e")
    case True
    then obtain keys where "e = SetApiKeys keys" by (cases e) simp_all
    with f have "awaiting s' = awaiting s"
      by (auto simp add: fire_def handleSetApiKeys_def split: if_splits)
    with w show ?thesis by simp
  next
    case False
    show ?thesis
    proof (cases "eventTime e")
      case None
      have "keptOut key expiry (set (awaiting s)) s"
        using c by (simp add: keptOut_def)
      from fire_keptOut [OF this f False n] None
      have "keptOut key expiry (set (awaiting s)) s'" by simp
      with w show ?thesis by (simp add: keptOut_def)
    next
      case (Some now)
      with n have le: "now \<le> expiry" by (simp add: notAfter_def)
      with c have "keptOut key now (set (awaiting s)) s"
        by (simp add: keptOut_def)
      from fire_keptOut [OF this f False] Some
      have "keptOut key now (set (awaiting s)) s'" by (simp add: notAfter_def)
      with w show ?thesis by (simp add: keptOut_def)
    qed
  qed
  from 1 2 3 4 show ?thesis by blast
qed

lemma exampleRun_awaiting: "length (awaiting exampleRun) = 1"
  by (simp add: eval_defs example_defs)

lemma reachable_exampleCooling: "reachable exampleCooling"
  unfolding exampleCooling_def
  by (rule reachable_step [OF reachable_exampleRun,
        where e = "Settle 0 (Inl (newError ''429 Too Many Requests'')) 5"])
     (simp add: fire_def exampleRun_awaiting)

lemma exampleCooling_facts:
  "queueRef exampleCooling = [''b'', ''a'']"
  "awaiting exampleCooling = []"
  "cooldownKeysRef exampleCooling ''key-1'' = Some 30005"
  "activeKeysRef exampleCooling = {}"
  "map status (files exampleCooling) = [Pending, Pending]"
  "length (timers exampleCooling) = 2"
  by (simp_all add: exampleCooling_def eval_defs example_defs)

theorem credentials_exclusive_and_cooldown_respected_witness:
  "reachable exampleRun \<and> map selectedKey (awaiting exampleRun) = [''key-1''] \<and>
   distinct (map selectedKey (awaiting exampleRun)) \<and>
   activeKeysRef exampleRun = {''key-1''} \<and>
   reachable exampleCooling \<and>
   cooldownKeysRef exampleCooling ''key-1'' = Some 30005 \<and>
   activeKeysRef exampleCooling = {} \<and>
   notAfter 30005 (Timer 0 1005) \<and>
   map_option awaiting (fire (Timer 0 1005) exampleCooling) = Some [] \<and>
   map_option queueRef (fire (Timer 0 1005) exampleCooling) = Some [''b'', ''a'']"
proof -
  have a: "map selectedKey (awaiting exampleRun) = [''key-1'']" "activeKeysRef exampleRun = {''key-1''}"
    by (simp_all add: eval_defs example_defs)
  have t: "map_option awaiting (fire (Timer 0 1005) exampleCooling) = Some []"
    "map_option queueRef (fire (Timer 0 1005) exampleCooling) = Some [''b'', ''a'']"
    by (simp_all add: exampleCooling_def eval_defs example_defs)
  from credentials_exclusive_and_cooldown_respected [OF reachable_exampleRun]
    reachable_exampleRun reachable_exampleCooling a t exampleCooling_facts(3,4)
  show ?thesis by (simp add: notAfter_def)
qed

section \<open>Failures of the credential-exhaustion class\<close>



section \<open>The end of a run\<close>













lemma reachableBy_reachable: "reachableBy allowed s \<Longrightarrow> reachable s"
  unfolding reachable_def
  by (induction rule: reachableBy.induct) (auto intro: reachableBy.intros)



lemmas example_defs2 = example_defs exampleResult_def exampleSecond_def exampleDrained_def
  exampleFinished_def

lemma quiet_exampleDrained: "reachableBy noRetryInRun exampleDrained"
proof -
  have 0: "reachableBy noRetryInRun initialState" by (rule reachableBy.initial)
  have 1: "reachableBy noRetryInRun (handleSetApiKeys [''key-1''] initialState)"
    by (rule reachableBy.step [OF 0, where e = "SetApiKeys [''key-1'']"])
       (simp_all add: fire_def initialState_def)
  have 2: "reachableBy noRetryInRun exampleIdle"
    unfolding exampleIdle_def
    by (rule reachableBy.step [OF 1, where e = "ProcessFiles [exampleFile ''a'', exampleFile ''b'']"])
       (simp_all add: fire_def initialState_def handleSetApiKeys_def freshItems_def exampleFile_def)
  have 3: "reachableBy noRetryInRun exampleRun"
    unfolding exampleRun_def
    by (rule reachableBy.step [OF 2, where e = "StartProcessing 0"])
       (simp_all add: fire_def exampleIdle_def initialState_def handleSetApiKeys_def processFiles_def)
  have 4: "reachableBy noRetryInRun exampleSecond"
    unfolding exampleSecond_def
    by (rule reachableBy.step [OF 3, where e = "Settle 0 (Inr exampleResult) 5"])
       (simp_all add: eval_defs example_defs)
  show ?thesis
    unfolding exampleDrained_def
    by (rule reachableBy.step [OF 4, where e = "Settle 0 (Inr exampleResult) 9"])
       (simp_all add: eval_defs example_defs2)
qed

lemma exampleDrained_facts:
  "processingRef exampleDrained"
  "queueRef exampleDrained = []"
  "awaiting exampleDrained = []"
  "timers exampleDrained ! 1 = (1000, CompletionTask)"
  "length (timers exampleDrained) = 2"
  "map status (files exampleDrained) = [Completed, Completed]"
  by (simp_all add: eval_defs example_defs2)

lemma fire_exampleDrained: "fire (Timer 1 1009) exampleDrained = Some exampleFinished"
proof -
  have "snd (timers exampleDrained ! Suc 0) = CompletionTask"
    using exampleDrained_facts(4) by simp
  then show ?thesis
    by (simp add: fire_def exampleDrained_facts(5) runTask_def exampleFinished_def)
qed

lemma exampleFinished_facts:
  "\<not> processingRef exampleFinished"
  "\<not> isProcessing exampleFinished"
  "map status (files exampleFinished) = [Completed, Completed]"
  "map id_file (files exampleFinished) = [''a'', ''b'']"
  "apiKeys exampleFinished = [''key-1'']"
  by (simp_all add: eval_defs example_defs2)

lemma reachable_exampleFinished: "reachable exampleFinished"
  by (rule reachable_step [OF reachableBy_reachable [OF quiet_exampleDrained] fire_exampleDrained])


section \<open>Retry and the sweep\<close>

lemma spawnWorker_within:
  assumes "set (queueRef s) \<union> set (map fileId (awaiting s)) \<subseteq> A"
  shows "set (queueRef (spawnWorker c w now s)) \<union>
         set (map fileId (awaiting (spawnWorker c w now s))) \<subseteq> A"
  using assms
proof (induction rule: spawnWorker_preserves)
  case (check s)
  then show ?case by (simp add: checkCompletion_def)
next
  case (drop s rest)
  then show ?case by (simp add: checkCompletion_def)
next
  case (backOff s fid rest r s1)
  note f = selectKey_fields [OF backOff(5)]
  from backOff(1,3) show ?case by (simp add: backOff_def f popped_def)
next
  case (throw s fid rest key s1)
  note f = selectKey_fields [OF throw(5)]
  from throw(1,3) show ?case unfolding afterThrow_eq by (simp add: f popped_def)
next
  case (suspend s fid rest key s1)
  note f = selectKey_fields [OF suspend(5)]
  from suspend(1,3) show ?case by (simp add: f popped_def suspend_def markProcessing_def)
qed

lemma startProcessing_within:
  assumes "queueRef s = []" and "awaiting s = []"
  shows "set (queueRef (startProcessing now s)) \<union>
         set (map fileId (awaiting (startProcessing now s)))
           \<subseteq> set (queueRef (seedQueue s))"
proof -
  let ?A = "set (queueRef (seedQueue s))"
  have "set (queueRef (seedQueue s)) \<union> set (map fileId (awaiting (seedQueue s))) \<subseteq> ?A"
    using assms(2) by (simp add: seedQueue_def Let_def)
  then have "set (queueRef (fold (\<lambda>i. spawnWorker c (i + 1) now) ws (seedQueue s))) \<union>
             set (map fileId (awaiting (fold (\<lambda>i. spawnWorker c (i + 1) now) ws (seedQueue s))))
               \<subseteq> ?A" for c ws
    by (rule fold_spawnWorker_preserves
          [where P = "\<lambda>s. set (queueRef s) \<union> set (map fileId (awaiting s)) \<subseteq> ?A", rotated])
       (rule spawnWorker_within)
  with assms show ?thesis
    by (simp add: startProcessing_def)
qed

lemma seedQueue_queue:
  "queueRef (seedQueue s) =
     map id_file (filter (\<lambda>f. status f = Pending \<or> status f = Failed) (files s))"
proof -
  have "isTarget = (\<lambda>f. status f = Pending \<or> status f = Failed)"
    by (rule ext) (simp add: isTarget_def)
  then show ?thesis by (simp add: seedQueue_def Let_def)
qed

text \<open>
  C9: \<^verbatim>\<open>retryItem\<close> changes nothing but the files, in any state and for any id, so the
  queue stays as it is until the next \<^verbatim>\<open>startProcessing\<close>. When that is invoked (the
  Generate button exists only outside a run), everything it queues or hands to a worker is
  the id of a file that is Pending or Failed at that moment: the id of a file that is still
  Completed is neither in the seeded queue, nor in the queue the call leaves, nor held by a
  worker the call has started.
\<close>

theorem retry_leaves_queue_and_sweep_skips_completed:
  assumes "reachable s" and "\<not> isProcessing s"
  shows "retryItem i s0 = s0\<lparr> files := files (retryItem i s0) \<rparr> \<and>
         queueRef (retryItem i s0) = queueRef s0 \<and>
         reachable (retryItem i s) \<and> \<not> isProcessing (retryItem i s) \<and>
         set (queueRef (startProcessing now s)) \<union> set (map fileId (awaiting (startProcessing now s)))
           \<subseteq> id_file ` {f \<in> set (files s). status f = Pending \<or> status f = Failed} \<and>
         (\<forall>f\<in>set (files s). status f = Completed \<longrightarrow>
            id_file f \<notin> set (queueRef (seedQueue s)) \<and>
            id_file f \<notin> set (queueRef (startProcessing now s)) \<and>
            id_file f \<notin> set (map fileId (awaiting (startProcessing now s))))"
proof -
  note inv = reachable_schedulerInv [OF assms(1)]
  from inv assms(2) have idle: "queueRef s = []" "awaiting s = []"
    and d: "distinct (map id_file (files s))"
    by (simp_all add: schedulerInv_def)
  have 1: "retryItem i s0 = s0\<lparr> files := files (retryItem i s0) \<rparr>"
    and 2: "queueRef (retryItem i s0) = queueRef s0"
    by (simp_all add: retryItem_def)
  have 3: "reachable (retryItem i s)"
    by (rule reachable_step [OF assms(1), where e = "Retry i"]) (simp add: fire_def)
  have 4: "\<not> isProcessing (retryItem i s)"
    using assms(2) by (simp add: retryItem_def)
  have q: "set (queueRef (seedQueue s)) = id_file ` {f \<in> set (files s). status f = Pending \<or> status f = Failed}"
    by (auto simp add: seedQueue_queue)
  note w = startProcessing_within [OF idle, of now]
  have 5: "set (queueRef (startProcessing now s)) \<union> set (map fileId (awaiting (startProcessing now s)))
           \<subseteq> id_file ` {f \<in> set (files s). status f = Pending \<or> status f = Failed}"
    using w unfolding q .
  have c: "id_file f \<notin> set (queueRef (seedQueue s))" if "f \<in> set (files s)" "status f = Completed" for f
  proof
    assume "id_file f \<in> set (queueRef (seedQueue s))"
    then obtain g where g: "g \<in> set (files s)" "status g = Pending \<or> status g = Failed" "id_file g = id_file f"
      unfolding q by auto
    from d that(1) g(1,3) have "g = f" by (simp add: distinct_map inj_on_def)
    with g(2) that(2) show False by simp
  qed
  have 6: "\<forall>f\<in>set (files s). status f = Completed \<longrightarrow>
            id_file f \<notin> set (queueRef (seedQueue s)) \<and>
            id_file f \<notin> set (queueRef (startProcessing now s)) \<and>
            id_file f \<notin> set (map fileId (awaiting (startProcessing now s)))"
    using c w by blast
  from 1 2 3 4 5 6 show ?thesis by blast
qed

theorem retry_leaves_queue_and_sweep_skips_completed_witness:
  "reachable exampleFinished \<and> \<not> isProcessing exampleFinished \<and>
   map status (files exampleFinished) = [Completed, Completed] \<and>
   queueRef exampleFinished = [] \<and>
   queueRef (retryItem ''a'' exampleFinished) = [] \<and>
   map status (files (retryItem ''a'' exampleFinished)) = [Pending, Completed] \<and>
   reachable (retryItem ''a'' exampleFinished) \<and>
   queueRef (seedQueue (retryItem ''a'' exampleFinished)) = [''a''] \<and>
   queueRef (startProcessing 2000 (retryItem ''a'' exampleFinished)) = [] \<and>
   map fileId (awaiting (startProcessing 2000 (retryItem ''a'' exampleFinished))) = [''a'']"
proof -
  have e: "queueRef exampleFinished = []"
    "map status (files (retryItem ''a'' exampleFinished)) = [Pending, Completed]"
    "queueRef (seedQueue (retryItem ''a'' exampleFinished)) = [''a'']"
    "queueRef (startProcessing 2000 (retryItem ''a'' exampleFinished)) = []"
    "map fileId (awaiting (startProcessing 2000 (retryItem ''a'' exampleFinished))) = [''a'']"
    by (simp_all add: eval_defs example_defs2)
  from retry_leaves_queue_and_sweep_skips_completed
         [OF reachable_exampleFinished exampleFinished_facts(2), of "''a''" exampleFinished 2000]
    reachable_exampleFinished exampleFinished_facts e
  show ?thesis by simp
qed

section \<open>Permanent failures and the sweep\<close>

text \<open>
  C8, as stated, fails in its last part: with a Pending file and no API key configured,
  \<^verbatim>\<open>startProcessing\<close> returns at its first guard and enqueues nothing.
\<close>

theorem startProcessing_without_keys_enqueues_nothing:
  "reachable (processFiles [exampleFile ''a''] initialState) \<and>
   apiKeys (processFiles [exampleFile ''a''] initialState) = [] \<and>
   map status (files (processFiles [exampleFile ''a''] initialState)) = [Pending] \<and>
   fire (StartProcessing 0) (processFiles [exampleFile ''a''] initialState)
     = Some (startProcessing 0 (processFiles [exampleFile ''a''] initialState)) \<and>
   queueRef (startProcessing 0 (processFiles [exampleFile ''a''] initialState)) = [] \<and>
   awaiting (startProcessing 0 (processFiles [exampleFile ''a''] initialState)) = [] \<and>
   map status (files (startProcessing 0 (processFiles [exampleFile ''a''] initialState))) = [Pending]"
proof -
  have "reachable (processFiles [exampleFile ''a''] initialState)"
    by (rule reachable_step [OF reachable_initial, where e = "ProcessFiles [exampleFile ''a'']"])
       (simp add: fire_def initialState_def freshItems_def exampleFile_def)
  then show ?thesis
    by (simp add: fire_def initialState_def processFiles_def startProcessing_def exampleFile_def)
qed

text \<open>
  C8, amended: when the call of a suspended worker is rejected with an error outside the
  credential-exhaustion class, the worker sets the status of that item to Failed with the
  printed error recorded and releases the key; the queue, which does not hold the id, the
  other files and the cooldowns are as before. \<^verbatim>\<open>retryItem\<close> never changes the
  queue. Only \<^verbatim>\<open>startProcessing\<close> sweeps, and provided at least one API key is
  configured it gives the workers a queue that holds exactly the ids of the files that are
  Pending or Failed, in the order of the files and without duplicates, with every Failed
  file reset to Pending and its error cleared (when no file is Pending or Failed it
  returns with the queue empty).
\<close>

theorem permanent_failure_fails_item_and_sweep_seeds_queue:
  assumes "reachable s"
  shows "(\<forall>i err now.
            i < length (awaiting s) \<and> \<not> isKeyError (toLowerCase (String_err err)) \<longrightarrow>
            afterSettle i (Inl err) now s =
              s\<lparr> awaiting := removeAt i (awaiting s),
                 activeKeysRef := activeKeysRef s - {selectedKey (awaiting s ! i)},
                 files := map (\<lambda>f. if id_file f = fileId (awaiting s ! i)
                                    then f\<lparr> status := Failed, error := Some (String_err err) \<rparr>
                                    else f) (files s),
                 activeWorkersRef := activeWorkersRef s - 1 \<rparr> \<and>
            queueRef (afterSettle i (Inl err) now s) = queueRef s \<and>
            fileId (awaiting s ! i) \<notin> set (queueRef s) \<and>
            (\<exists>f\<in>set (files (afterSettle i (Inl err) now s)).
               id_file f = fileId (awaiting s ! i) \<and> status f = Failed \<and>
               error f = Some (String_err err))) \<and>
         (\<forall>i. queueRef (retryItem i s) = queueRef s) \<and>
         (\<not> isProcessing s \<and> apiKeys s \<noteq> [] \<longrightarrow>
            (\<forall>now. startProcessing now s =
               (if filter isTarget (files s) = [] then s
                else fold (\<lambda>i. spawnWorker \<lparr> apiKeys_c = apiKeys s, files_c = files s \<rparr> (i + 1) now)
                       [0..<maxConcurrency (apiKeys s)] (seedQueue s))) \<and>
            queueRef s = [] \<and>
            queueRef (seedQueue s) =
              map id_file (filter (\<lambda>f. status f = Pending \<or> status f = Failed) (files s)) \<and>
            distinct (queueRef (seedQueue s)) \<and>
            files (seedQueue s) =
              map (\<lambda>f. if status f = Failed then f\<lparr> status := Pending, error := None \<rparr> else f)
                (files s))"
proof -
  note inv = reachable_schedulerInv [OF assms]
  have 1: "afterSettle i (Inl err) now s =
              s\<lparr> awaiting := removeAt i (awaiting s),
                 activeKeysRef := activeKeysRef s - {selectedKey (awaiting s ! i)},
                 files := map (\<lambda>f. if id_file f = fileId (awaiting s ! i)
                                    then f\<lparr> status := Failed, error := Some (String_err err) \<rparr>
                                    else f) (files s),
                 activeWorkersRef := activeWorkersRef s - 1 \<rparr> \<and>
            queueRef (afterSettle i (Inl err) now s) = queueRef s \<and>
            fileId (awaiting s ! i) \<notin> set (queueRef s) \<and>
            (\<exists>f\<in>set (files (afterSettle i (Inl err) now s)).
               id_file f = fileId (awaiting s ! i) \<and> status f = Failed \<and>
               error f = Some (String_err err))"
    if i: "i < length (awaiting s)" and p: "\<not> isKeyError (toLowerCase (String_err err))"
    for i err now
  proof -
    let ?w = "awaiting s ! i"
    let ?upd = "\<lambda>f. if id_file f = fileId ?w
                    then f\<lparr> status := Failed, error := Some (String_err err) \<rparr> else f"
    from i have win: "?w \<in> set (awaiting s)" by simp
    from inv have dis: "set (queueRef s) \<inter> set (map fileId (awaiting s)) = {}"
      and sub: "set (map fileId (awaiting s)) \<subseteq> set (map id_file (files s))"
      by (simp_all add: schedulerInv_def)
    have eq: "afterSettle i (Inl err) now s =
              s\<lparr> awaiting := removeAt i (awaiting s),
                 activeKeysRef := activeKeysRef s - {selectedKey ?w},
                 files := map ?upd (files s),
                 activeWorkersRef := activeWorkersRef s - 1 \<rparr>"
      by (simp add: afterSettle_def catchBlock_def p Let_def)
    have q: "queueRef (afterSettle i (Inl err) now s) = queueRef s"
      unfolding eq by simp
    from dis win have nq: "fileId ?w \<notin> set (queueRef s)" by auto
    from sub win obtain f0 where f0: "f0 \<in> set (files s)" "id_file f0 = fileId ?w" by auto
    have fs: "files (afterSettle i (Inl err) now s) = map ?upd (files s)"
      unfolding eq by simp
    from f0 have "?upd f0 \<in> set (files (afterSettle i (Inl err) now s))"
      unfolding fs by (simp add: image_iff) (rule bexI [of _ f0], simp_all)
    moreover from f0(2) have "id_file (?upd f0) = fileId ?w \<and> status (?upd f0) = Failed \<and>
        error (?upd f0) = Some (String_err err)" by simp
    ultimately have ex: "\<exists>f\<in>set (files (afterSettle i (Inl err) now s)).
               id_file f = fileId ?w \<and> status f = Failed \<and> error f = Some (String_err err)"
      by blast
    from eq q nq ex show ?thesis by blast
  qed
  have 2: "queueRef (retryItem i s) = queueRef s" for i
    by (simp add: retryItem_def)
  have 3: "(\<forall>now. startProcessing now s =
               (if filter isTarget (files s) = [] then s
                else fold (\<lambda>i. spawnWorker \<lparr> apiKeys_c = apiKeys s, files_c = files s \<rparr> (i + 1) now)
                       [0..<maxConcurrency (apiKeys s)] (seedQueue s))) \<and>
            queueRef s = [] \<and>
            queueRef (seedQueue s) =
              map id_file (filter (\<lambda>f. status f = Pending \<or> status f = Failed) (files s)) \<and>
            distinct (queueRef (seedQueue s)) \<and>
            files (seedQueue s) =
              map (\<lambda>f. if status f = Failed then f\<lparr> status := Pending, error := None \<rparr> else f)
                (files s)"
    if idle: "\<not> isProcessing s" and k: "apiKeys s \<noteq> []"
  proof -
    from inv idle have q0: "queueRef s = []" and d: "distinct (map id_file (files s))"
      by (simp_all add: schedulerInv_def)
    have a: "\<forall>now. startProcessing now s =
               (if filter isTarget (files s) = [] then s
                else fold (\<lambda>i. spawnWorker \<lparr> apiKeys_c = apiKeys s, files_c = files s \<rparr> (i + 1) now)
                       [0..<maxConcurrency (apiKeys s)] (seedQueue s))"
      using k by (simp add: startProcessing_def)
    have b: "distinct (queueRef (seedQueue s))"
      unfolding seedQueue_queue using d by (simp add: distinct_map_filter)
    have c: "files (seedQueue s) =
              map (\<lambda>f. if status f = Failed then f\<lparr> status := Pending, error := None \<rparr> else f)
                (files s)"
      by (simp add: seedQueue_def Let_def)
    from a q0 seedQueue_queue [of s] b c show ?thesis by blast
  qed
  from 1 2 3 show ?thesis by blast
qed

theorem permanent_failure_fails_item_and_sweep_seeds_queue_witness:
  "reachable exampleRun \<and> map fileId (awaiting exampleRun) = [''a''] \<and>
   queueRef exampleRun = [''b''] \<and>
   \<not> isKeyError (toLowerCase (String_err (newError ''Unsupported format''))) \<and>
   queueRef (afterSettle 0 (Inl (newError ''Unsupported format'')) 5 exampleRun) = [''b''] \<and>
   map status (files (afterSettle 0 (Inl (newError ''Unsupported format'')) 5 exampleRun))
     = [Failed, Pending] \<and>
   map error (files (afterSettle 0 (Inl (newError ''Unsupported format'')) 5 exampleRun))
     = [Some ''Error: Unsupported format'', None] \<and>
   reachable exampleIdle \<and> \<not> isProcessing exampleIdle \<and> apiKeys exampleIdle = [''key-1''] \<and>
   map status (files exampleIdle) = [Pending, Pending] \<and>
   queueRef (seedQueue exampleIdle) = [''a'', ''b''] \<and>
   queueRef (retryItem ''a'' exampleIdle) = []"
proof -
  have a: "map fileId (awaiting exampleRun) = [''a'']" "queueRef exampleRun = [''b'']"
    by (simp_all add: eval_defs example_defs)
  have k: "\<not> isKeyError (toLowerCase (String_err (newError ''Unsupported format'')))"
    by (simp add: isKeyError_def toLowerCase_def newError_def)
  have s: "map status (files (afterSettle 0 (Inl (newError ''Unsupported format'')) 5 exampleRun))
     = [Failed, Pending]"
    "map error (files (afterSettle 0 (Inl (newError ''Unsupported format'')) 5 exampleRun))
     = [Some ''Error: Unsupported format'', None]"
    by (simp_all add: afterSettle_def eval_defs example_defs)
  have i: "\<not> isProcessing exampleIdle" "apiKeys exampleIdle = [''key-1'']"
    "map status (files exampleIdle) = [Pending, Pending]"
    "queueRef (seedQueue exampleIdle) = [''a'', ''b'']"
    by (simp_all add: eval_defs example_defs)
  have l: "0 < length (awaiting exampleRun)" by (simp add: exampleRun_awaiting)
  from permanent_failure_fails_item_and_sweep_seeds_queue [OF reachable_exampleRun]
    permanent_failure_fails_item_and_sweep_seeds_queue [OF reachable_exampleIdle]
    reachable_exampleRun reachable_exampleIdle a k s i l
  show ?thesis by simp
qed

end
